theory Spec2Isabelle
  imports Main "HOL-Library.Multiset"
begin

section \<open>Process manager (\<^verbatim>\<open>src/Subprocess.cpp\<close>)\<close>

subsection \<open>Data\<close>

text \<open>
  The lifecycle tag of \<^verbatim>\<open>Subprocess::State\<close>. The callback wrapper only ever passes
  \<open>EXITED\<close> or \<open>SIGNALED\<close> to \<^verbatim>\<open>done\<close>.
\<close>

datatype State = NOT_STARTED | RUNNING | EXITED | SIGNALED

text \<open>
  Objects that live outside the file are identified by natural numbers: a pipe, the
  exit-watch canceler, the caller's completion callback. A disk reference carries the
  path it exposes through \<^verbatim>\<open>path()\<close>.
\<close>

type_synonym Pipe = nat
type_synonym Canceler = nat
type_synonym Callback = nat

datatype DiskRef = DiskRef (ref_id: nat) (path: string)

text \<open>
  The fields of \<^verbatim>\<open>class Subprocess\<close>, as the member functions use them. An owned pointer
  that is \<^verbatim>\<open>NULL\<close> is \<open>None\<close>.
\<close>

record Subprocess =
  executableName :: string
  doPathLookup :: bool
  args :: "string list"
  diskRefs :: "DiskRef list"
  stdoutPipe :: "Pipe option"
  stderrPipe :: "Pipe option"
  stdoutAndStderrPipe :: "Pipe option"
  pipeCount :: int
  pid :: int
  state :: State
  exitStatusOrSignalNumber :: int
  canceler :: "Canceler option"
  finalCallback :: "Callback option"

text \<open>
  The constructor initialises \<open>doPathLookup\<close>, \<open>pipeCount\<close>, \<open>pid\<close> and \<open>state\<close>; the
  strings, vectors and owned pointers start empty. \<open>exitStatusOrSignalNumber\<close> is left
  uninitialised by the constructor, so its first value \<open>u\<close> is a parameter.
\<close>

definition new_Subprocess :: "int \<Rightarrow> Subprocess" where
  "new_Subprocess u =
     \<lparr> executableName = [], doPathLookup = False, args = [], diskRefs = [],
       stdoutPipe = None, stderrPipe = None, stdoutAndStderrPipe = None,
       pipeCount = 0, pid = - 1, state = NOT_STARTED,
       exitStatusOrSignalNumber = u, canceler = None, finalCallback = None \<rparr>"

subsection \<open>Argument assembly\<close>

definition addArgument :: "string \<Rightarrow> Subprocess \<Rightarrow> Subprocess" where
  "addArgument arg s =
     (let s1 = (if args s = [] then s\<lparr>executableName := arg, doPathLookup := True\<rparr> else s)
      in s1\<lparr>args := args s1 @ [arg]\<rparr>)"

text \<open>
  \<^verbatim>\<open>File::getOnDisk\<close> is not part of this file: it is the parameter \<open>getOnDisk\<close>, which
  either fails (the exception leaves \<^verbatim>\<open>addArgument\<close> before any field is written) or
  yields the disk reference.
\<close>

definition addArgumentFile ::
  "('f \<Rightarrow> 'u \<Rightarrow> 'e + DiskRef) \<Rightarrow> 'f \<Rightarrow> 'u \<Rightarrow> Subprocess \<Rightarrow> 'e + Subprocess" where
  "addArgumentFile getOnDisk file usage s =
     (case getOnDisk file usage of
        Inl e \<Rightarrow> Inl e
      | Inr diskRef \<Rightarrow>
          (let s1 = (if args s = []
                     then s\<lparr>executableName := path diskRef, doPathLookup := False\<rparr> else s);
               s2 = s1\<lparr>args := args s1 @ [path diskRef]\<rparr>
           in Inr (s2\<lparr>diskRefs := diskRefs s2 @ [diskRef]\<rparr>)))"

text \<open>
  A call of either overload, and a sequence of such calls; the sequence stops at the first
  exception of \<open>getOnDisk\<close>, as the caller's code would.
\<close>

datatype ('f, 'u) Argument = PlainText string | FileBacked 'f 'u

fun addArg ::
  "('f \<Rightarrow> 'u \<Rightarrow> 'e + DiskRef) \<Rightarrow> ('f, 'u) Argument \<Rightarrow> Subprocess \<Rightarrow> 'e + Subprocess" where
  "addArg getOnDisk (PlainText arg) s = Inr (addArgument arg s)"
| "addArg getOnDisk (FileBacked file usage) s = addArgumentFile getOnDisk file usage s"

fun addArgs ::
  "('f \<Rightarrow> 'u \<Rightarrow> 'e + DiskRef) \<Rightarrow> ('f, 'u) Argument list \<Rightarrow> Subprocess \<Rightarrow> 'e + Subprocess"
  where
  "addArgs getOnDisk [] s = Inr s"
| "addArgs getOnDisk (a # as) s =
     (case addArg getOnDisk a s of Inl e \<Rightarrow> Inl e | Inr s' \<Rightarrow> addArgs getOnDisk as s')"

text \<open>
  For stating what a sequence of calls records: the string an argument stands for, the
  disk reference it brings, and whether it is plain text.
\<close>

fun argString :: "('f \<Rightarrow> 'u \<Rightarrow> 'e + DiskRef) \<Rightarrow> ('f, 'u) Argument \<Rightarrow> string" where
  "argString getOnDisk (PlainText arg) = arg"
| "argString getOnDisk (FileBacked file usage) =
     (case getOnDisk file usage of Inl e \<Rightarrow> [] | Inr diskRef \<Rightarrow> path diskRef)"

fun argRefs :: "('f \<Rightarrow> 'u \<Rightarrow> 'e + DiskRef) \<Rightarrow> ('f, 'u) Argument \<Rightarrow> DiskRef list" where
  "argRefs getOnDisk (PlainText arg) = []"
| "argRefs getOnDisk (FileBacked file usage) =
     (case getOnDisk file usage of Inl e \<Rightarrow> [] | Inr diskRef \<Rightarrow> [diskRef])"

fun isPlainText :: "('f, 'u) Argument \<Rightarrow> bool" where
  "isPlainText (PlainText arg) = True"
| "isPlainText (FileBacked file usage) = False"

subsection \<open>Capture configuration\<close>

text \<open>
  Each capture call allocates a pipe (\<open>p\<close>, the freshly allocated object), hands its read
  end to the caller and clears other bindings. The functions return the new state and
  the pipe whose read end went to \<^verbatim>\<open>*output\<close>.
\<close>

definition captureStdout :: "Pipe \<Rightarrow> Subprocess \<Rightarrow> Subprocess \<times> Pipe" where
  "captureStdout p s = (s\<lparr>stdoutPipe := Some p, stdoutAndStderrPipe := None\<rparr>, p)"

definition captureStderr :: "Pipe \<Rightarrow> Subprocess \<Rightarrow> Subprocess \<times> Pipe" where
  "captureStderr p s = (s\<lparr>stderrPipe := Some p, stdoutAndStderrPipe := None\<rparr>, p)"

definition captureStdoutAndStderr :: "Pipe \<Rightarrow> Subprocess \<Rightarrow> Subprocess \<times> Pipe" where
  "captureStdoutAndStderr p s =
     (s\<lparr>stdoutAndStderrPipe := Some p, stdoutPipe := None, stderrPipe := None\<rparr>, p)"

text \<open>A capture-configuration call, and a sequence of them run from left to right.\<close>

datatype Capture = CaptureStdout Pipe | CaptureStderr Pipe | CaptureStdoutAndStderr Pipe

fun capture :: "Subprocess \<Rightarrow> Capture \<Rightarrow> Subprocess" where
  "capture s (CaptureStdout p) = fst (captureStdout p s)"
| "capture s (CaptureStderr p) = fst (captureStderr p s)"
| "capture s (CaptureStdoutAndStderr p) = fst (captureStdoutAndStderr p s)"

definition captures :: "Capture list \<Rightarrow> Subprocess \<Rightarrow> Subprocess" where
  "captures cs s = foldl capture s cs"

text \<open>The number of capture modes (pipe bindings) that are set.\<close>

definition activeModes :: "Subprocess \<Rightarrow> nat" where
  "activeModes s =
     (if stdoutPipe s \<noteq> None then 1 else 0) + (if stderrPipe s \<noteq> None then 1 else 0)
     + (if stdoutAndStderrPipe s \<noteq> None then 1 else 0)"

subsection \<open>Start\<close>

text \<open>
  What the child branch of \<^verbatim>\<open>start\<close> does before and at the exec call: the descriptor
  wiring, then \<^verbatim>\<open>execvp\<close> (PATH lookup) or \<^verbatim>\<open>execv\<close> (exact path) on the locator and
  the argument vector.
\<close>

datatype ChildAction = AttachWriteEndForExec Pipe nat | Dup2 nat nat

datatype ExecCall = Execvp string "string list" | Execv string "string list"

definition STDOUT_FILENO :: nat where "STDOUT_FILENO = 1"
definition STDERR_FILENO :: nat where "STDERR_FILENO = 2"

definition childWiring :: "Subprocess \<Rightarrow> ChildAction list" where
  "childWiring s =
     (case stdoutPipe s of None \<Rightarrow> [] | Some p \<Rightarrow> [AttachWriteEndForExec p STDOUT_FILENO])
     @ (case stderrPipe s of None \<Rightarrow> [] | Some p \<Rightarrow> [AttachWriteEndForExec p STDERR_FILENO])
     @ (case stdoutAndStderrPipe s of None \<Rightarrow> []
        | Some p \<Rightarrow> [AttachWriteEndForExec p STDOUT_FILENO, Dup2 STDOUT_FILENO STDERR_FILENO])"

definition childExec :: "Subprocess \<Rightarrow> ExecCall" where
  "childExec s =
     (if doPathLookup s then Execvp (executableName s) (args s)
      else Execv (executableName s) (args s))"

text \<open>
  How the child ends. The operating system is a parameter: \<open>execFails call\<close> says whether
  the exec call returns (it returns only on failure). When it does not return, the child
  has become the target program; when it returns, the child runs \<^verbatim>\<open>perror\<close> and
  \<^verbatim>\<open>exit(1)\<close>.
\<close>

datatype ChildEnd = BecameProgram ExecCall | ExitWithStatus int

definition childBranch :: "(ExecCall \<Rightarrow> bool) \<Rightarrow> Subprocess \<Rightarrow> ChildAction list \<times> ChildEnd" where
  "childBranch execFails s =
     (childWiring s,
      if execFails (childExec s) then ExitWithStatus 1 else BecameProgram (childExec s))"

text \<open>
  The parent branch: the state becomes \<open>RUNNING\<close>, each binding that is set is cleared and
  counted, the callback is adopted, and the dispatcher's \<^verbatim>\<open>onProcessExit\<close> fills in the
  canceler (\<open>token\<close>).
\<close>

definition parentBranch :: "Canceler \<Rightarrow> Callback option \<Rightarrow> Subprocess \<Rightarrow> Subprocess" where
  "parentBranch token callbackToAdopt s =
     (let s0 = s\<lparr>state := RUNNING\<rparr>;
          s1 = (if stdoutPipe s0 \<noteq> None
                then s0\<lparr>stdoutPipe := None, pipeCount := pipeCount s0 + 1\<rparr> else s0);
          s2 = (if stderrPipe s1 \<noteq> None
                then s1\<lparr>stderrPipe := None, pipeCount := pipeCount s1 + 1\<rparr> else s1);
          s3 = (if stdoutAndStderrPipe s2 \<noteq> None
                then s2\<lparr>stdoutAndStderrPipe := None, pipeCount := pipeCount s2 + 1\<rparr> else s2)
      in s3\<lparr>finalCallback := callbackToAdopt, canceler := Some token\<rparr>)"

text \<open>
  \<^verbatim>\<open>start\<close> itself: \<open>forkResult\<close> is what \<^verbatim>\<open>fork()\<close> returned and \<open>errno\<close> the error
  number it left. A negative result throws \<^verbatim>\<open>OsError\<close>; zero is the child; anything else
  is the parent.
\<close>

datatype StartResult =
    ThrewOsError string string int
  | InChild "ChildAction list" ChildEnd
  | InParent Subprocess

definition start ::
  "int \<Rightarrow> int \<Rightarrow> (ExecCall \<Rightarrow> bool) \<Rightarrow> Canceler \<Rightarrow> Callback option \<Rightarrow> Subprocess \<Rightarrow> StartResult"
  where
  "start forkResult errno execFails token callbackToAdopt s =
     (let s' = s\<lparr>pid := forkResult\<rparr> in
      if forkResult < 0 then ThrewOsError [] ''fork'' errno
      else if forkResult = 0 then
        (case childBranch execFails s' of (acts, e) \<Rightarrow> InChild acts e)
      else InParent (parentBranch token callbackToAdopt s'))"

subsection \<open>Completion tracking\<close>

text \<open>
  The calls made on the caller's completion callback are recorded in a log beside the
  process manager: which callback object, which method, which number. Dereferencing an
  empty owned pointer trips the assertion of \<^verbatim>\<open>operator->\<close>. The other errors belong
  to the ownership library below: an index outside a container, a read of a refcount
  block that has been freed, a handle name that is not declared, and one declared twice.
\<close>

datatype Notice = Exited int | Signaled int

datatype error = AssertionFailed | OutOfBounds | UseAfterFree | NotInScope | AlreadyDeclared

type_synonym Sys = "Subprocess \<times> (Callback \<times> Notice) list"

definition maybeCallFinalCallback :: "Sys \<Rightarrow> error + Sys" where
  "maybeCallFinalCallback w =
     (case w of (s, log) \<Rightarrow>
        if pipeCount s = 0 then
          if state s = EXITED then
            (case finalCallback s of
               None \<Rightarrow> Inl AssertionFailed
             | Some cb \<Rightarrow>
                 Inr (s\<lparr>finalCallback := None\<rparr>, log @ [(cb, Exited (exitStatusOrSignalNumber s))]))
          else if state s = SIGNALED then
            (case finalCallback s of
               None \<Rightarrow> Inl AssertionFailed
             | Some cb \<Rightarrow>
                 Inr (s\<lparr>finalCallback := None\<rparr>, log @ [(cb, Signaled (exitStatusOrSignalNumber s))]))
          else Inr (s, log)
        else Inr (s, log))"

definition pipeDone :: "Sys \<Rightarrow> error + Sys" where
  "pipeDone w = (case w of (s, log) \<Rightarrow>
     maybeCallFinalCallback (s\<lparr>pipeCount := pipeCount s - 1\<rparr>, log))"

definition done' :: "State \<Rightarrow> int \<Rightarrow> Sys \<Rightarrow> error + Sys" where
  "done' st n w = (case w of (s, log) \<Rightarrow>
     maybeCallFinalCallback
       (s\<lparr>state := st, exitStatusOrSignalNumber := n, canceler := None, pid := - 1,
          diskRefs := []\<rparr>, log))"

text \<open>
  The notifications that reach a running process manager: a pipe's drain notification
  (\<^verbatim>\<open>pipeDone\<close>), and the two methods of \<^verbatim>\<open>CallbackWrapper\<close>, which forward to
  \<^verbatim>\<open>done\<close> (here \<open>done'\<close>) with the matching tag.
\<close>

datatype Event = PipeDrained | ProcessExited int | ProcessSignaled int

fun deliver :: "Event \<Rightarrow> Sys \<Rightarrow> error + Sys" where
  "deliver PipeDrained w = pipeDone w"
| "deliver (ProcessExited exitCode) w = done' EXITED exitCode w"
| "deliver (ProcessSignaled signalNumber) w = done' SIGNALED signalNumber w"

fun run :: "Event list \<Rightarrow> Sys \<Rightarrow> error + Sys" where
  "run [] w = Inr w"
| "run (e # es) w = (case deliver e w of Inl x \<Rightarrow> Inl x | Inr w' \<Rightarrow> run es w')"

text \<open>
  What a sequence of notifications holds: how many drain notifications, and which exit or
  signal notifications. \<open>noticeOf\<close> is the call on the completion callback that an exit or
  signal notification stands for, \<open>tagOf\<close> the terminal state it sets and \<open>valueOf\<close>
  the number it stores.
\<close>

definition drains :: "Event list \<Rightarrow> nat" where
  "drains evs = length (filter (\<lambda>e. e = PipeDrained) evs)"

definition exits :: "Event list \<Rightarrow> Event list" where
  "exits evs = filter (\<lambda>e. e \<noteq> PipeDrained) evs"

fun noticeOf :: "Event \<Rightarrow> Notice" where
  "noticeOf (ProcessExited n) = Exited n"
| "noticeOf (ProcessSignaled n) = Signaled n"
| "noticeOf PipeDrained = Exited 0"

fun tagOf :: "Event \<Rightarrow> State" where
  "tagOf (ProcessExited n) = EXITED"
| "tagOf (ProcessSignaled n) = SIGNALED"
| "tagOf PipeDrained = RUNNING"

fun valueOf :: "Event \<Rightarrow> int" where
  "valueOf (ProcessExited n) = n"
| "valueOf (ProcessSignaled n) = n"
| "valueOf PipeDrained = 0"

definition terminal :: "State \<Rightarrow> bool" where
  "terminal st = (st = EXITED \<or> st = SIGNALED)"

text \<open>
  The bookkeeping predicate of a run with \<open>K\<close> pipes and callback \<open>cb\<close>: where the process
  manager stands after the notifications \<open>pre\<close> have been delivered.
\<close>

definition progress :: "nat \<Rightarrow> Callback \<Rightarrow> Event list \<Rightarrow> Sys \<Rightarrow> bool" where
  "progress K cb pre w =
     (case w of (s, log) \<Rightarrow>
        pipeCount s = int K - int (drains pre) \<and>
        (case exits pre of
           [] \<Rightarrow> state s = RUNNING \<and> log = [] \<and> finalCallback s = Some cb
         | e # _ \<Rightarrow>
             state s = tagOf e \<and> exitStatusOrSignalNumber s = valueOf e \<and>
             (if drains pre = K
              then log = [(cb, noticeOf e)] \<and> finalCallback s = None
              else log = [] \<and> finalCallback s = Some cb)))"

subsection \<open>The child as the parent sees it\<close>

text \<open>
  Modelled from the spec: the operating system's report of how a child ended and the
  external dispatcher (\<^verbatim>\<open>EventManager\<close>) that turns it into a notification are not in
  these sources. The spec's words: ``The external dispatcher invokes exactly one of two
  notifications when the child terminates: normal exit with a numeric code, or
  termination by a numeric signal.''
\<close>

datatype Termination = NormalExit int | KilledBySignal int

fun exitNotification :: "Termination \<Rightarrow> Event" where
  "exitNotification (NormalExit exitCode) = ProcessExited exitCode"
| "exitNotification (KilledBySignal signalNumber) = ProcessSignaled signalNumber"

text \<open>
  Modelled from the spec: how the child terminates. A child that became the target
  program ends as that program does (\<open>program\<close>, a parameter; \<open>None\<close> when it never ends);
  a child that called \<^verbatim>\<open>exit(n)\<close> ends normally with code \<open>n\<close>.
\<close>

fun childTermination :: "(ExecCall \<Rightarrow> Termination option) \<Rightarrow> ChildEnd \<Rightarrow> Termination option" where
  "childTermination program (BecameProgram call) = program call"
| "childTermination program (ExitWithStatus n) = Some (NormalExit n)"

section \<open>Ownership library (\<^verbatim>\<open>src/base/OwnedPtr.h\<close>)\<close>

subsection \<open>Raw pointers and deletion\<close>

text \<open>
  A raw pointer \<^verbatim>\<open>T*\<close> is \<open>None\<close> when it is \<^verbatim>\<open>NULL\<close> and \<open>Some a\<close> when it points to the
  object \<open>a\<close>. Destroying objects is recorded in a log of the objects deleted, in order;
  \<^verbatim>\<open>delete\<close> on \<^verbatim>\<open>NULL\<close> does nothing.
\<close>

type_synonym rawptr = "nat option"

definition deleteEnsuringCompleteType :: "rawptr \<Rightarrow> nat list \<Rightarrow> nat list" where
  "deleteEnsuringCompleteType p dl = (case p of None \<Rightarrow> dl | Some a \<Rightarrow> dl @ [a])"

subsection \<open>Exclusive handle\<close>

text \<open>
  An \<^verbatim>\<open>OwnedPtr\<close> is its one field \<^verbatim>\<open>ptr\<close>. \<open>OwnedPtr_releaseRaw\<close> returns the result and
  the handle's new field; \<open>OwnedPtr_reset\<close> the new field and the log.
\<close>

definition OwnedPtr_releaseRaw :: "rawptr \<Rightarrow> rawptr \<times> rawptr" where
  "OwnedPtr_releaseRaw p = (p, None)"

definition OwnedPtr_reset :: "rawptr \<Rightarrow> rawptr \<Rightarrow> nat list \<Rightarrow> rawptr \<times> nat list" where
  "OwnedPtr_reset newValue p dl = (newValue, deleteEnsuringCompleteType p dl)"

definition OwnedPtr_destroy :: "rawptr \<Rightarrow> nat list \<Rightarrow> nat list" where
  "OwnedPtr_destroy p dl = deleteEnsuringCompleteType p dl"

subsection \<open>Owned containers\<close>

text \<open>
  \<^verbatim>\<open>OwnedPtrVector\<close> wraps a \<^verbatim>\<open>std::vector<T*>\<close>. Indexing outside the vector and
  \<^verbatim>\<open>back()\<close> on an empty vector are undefined in C++; the model reports them as
  \<open>OutOfBounds\<close>. Each releasing function returns the exclusive handle it hands to the
  caller and the vector afterwards.
\<close>

definition inRange :: "int \<Rightarrow> 'a list \<Rightarrow> bool" where
  "inRange index vec = (0 \<le> index \<and> index < int (length vec))"

definition OwnedPtrVector_release :: "int \<Rightarrow> rawptr list \<Rightarrow> error + (rawptr \<times> rawptr list)" where
  "OwnedPtrVector_release index vec =
     (if inRange index vec
      then Inr (vec ! nat index, vec[nat index := None])
      else Inl OutOfBounds)"

definition OwnedPtrVector_releaseBack :: "rawptr list \<Rightarrow> error + (rawptr \<times> rawptr list)" where
  "OwnedPtrVector_releaseBack vec =
     (if vec = [] then Inl OutOfBounds else Inr (last vec, butlast vec))"

definition OwnedPtrVector_releaseAndShift ::
  "int \<Rightarrow> rawptr list \<Rightarrow> error + (rawptr \<times> rawptr list)" where
  "OwnedPtrVector_releaseAndShift index vec =
     (if inRange index vec
      then Inr (vec ! nat index, take (nat index) vec @ drop (Suc (nat index)) vec)
      else Inl OutOfBounds)"

text \<open>The destructor deletes every slot in order; \<^verbatim>\<open>clear\<close> does the same and empties the vector.\<close>

definition OwnedPtrVector_destroy :: "rawptr list \<Rightarrow> nat list \<Rightarrow> nat list" where
  "OwnedPtrVector_destroy vec dl = foldl (\<lambda>l p. deleteEnsuringCompleteType p l) dl vec"

definition OwnedPtrVector_clear :: "rawptr list \<Rightarrow> nat list \<Rightarrow> rawptr list \<times> nat list" where
  "OwnedPtrVector_clear vec dl = ([], foldl (\<lambda>l p. deleteEnsuringCompleteType p l) dl vec)"

text \<open>\<^verbatim>\<open>OwnedPtrDeque\<close> wraps a \<^verbatim>\<open>std::deque<T*>\<close>.\<close>

definition OwnedPtrDeque_popFront :: "rawptr list \<Rightarrow> error + (rawptr \<times> rawptr list)" where
  "OwnedPtrDeque_popFront q = (case q of [] \<Rightarrow> Inl OutOfBounds | p # q' \<Rightarrow> Inr (p, q'))"

definition OwnedPtrDeque_popBack :: "rawptr list \<Rightarrow> error + (rawptr \<times> rawptr list)" where
  "OwnedPtrDeque_popBack q = (if q = [] then Inl OutOfBounds else Inr (last q, butlast q))"

definition OwnedPtrDeque_releaseAndShift ::
  "int \<Rightarrow> rawptr list \<Rightarrow> error + (rawptr \<times> rawptr list)" where
  "OwnedPtrDeque_releaseAndShift index q =
     (if inRange index q
      then Inr (q ! nat index, take (nat index) q @ drop (Suc (nat index)) q)
      else Inl OutOfBounds)"

definition OwnedPtrDeque_destroy :: "rawptr list \<Rightarrow> nat list \<Rightarrow> nat list" where
  "OwnedPtrDeque_destroy q dl = foldl (\<lambda>l p. deleteEnsuringCompleteType p l) dl q"

definition OwnedPtrDeque_clear :: "rawptr list \<Rightarrow> nat list \<Rightarrow> rawptr list \<times> nat list" where
  "OwnedPtrDeque_clear q dl = ([], foldl (\<lambda>l p. deleteEnsuringCompleteType p l) dl q)"

text \<open>
  \<^verbatim>\<open>OwnedPtrQueue\<close> wraps a \<^verbatim>\<open>std::queue<T*>\<close>; \<^verbatim>\<open>clear\<close> is the loop that deletes and
  pops the front until the queue is empty, and the destructor calls it.
\<close>

definition OwnedPtrQueue_pop :: "rawptr list \<Rightarrow> error + (rawptr \<times> rawptr list)" where
  "OwnedPtrQueue_pop q = (case q of [] \<Rightarrow> Inl OutOfBounds | p # q' \<Rightarrow> Inr (p, q'))"

fun OwnedPtrQueue_clear :: "rawptr list \<Rightarrow> nat list \<Rightarrow> rawptr list \<times> nat list" where
  "OwnedPtrQueue_clear [] dl = ([], dl)"
| "OwnedPtrQueue_clear (p # q) dl = OwnedPtrQueue_clear q (deleteEnsuringCompleteType p dl)"

definition OwnedPtrQueue_destroy :: "rawptr list \<Rightarrow> nat list \<Rightarrow> nat list" where
  "OwnedPtrQueue_destroy q dl = snd (OwnedPtrQueue_clear q dl)"

text \<open>
  \<^verbatim>\<open>OwnedPtrMap\<close> wraps a \<^verbatim>\<open>std::unordered_map<Key, T*>\<close>: an association list with one
  entry per key. The order of the list stands for the iteration order, which C++ leaves
  unspecified; nothing below depends on it. \<open>InnerMap_insert\<close> is \<^verbatim>\<open>map.insert\<close>: it leaves
  the map alone when the key is present and says whether it inserted.
\<close>

type_synonym 'k InnerMap = "('k \<times> rawptr) list"

definition InnerMap_insert :: "'k \<times> rawptr \<Rightarrow> 'k InnerMap \<Rightarrow> 'k InnerMap \<times> bool" where
  "InnerMap_insert kv m =
     (case map_of m (fst kv) of Some v \<Rightarrow> (m, False) | None \<Rightarrow> (m @ [kv], True))"

definition InnerMap_erase :: "'k \<Rightarrow> 'k InnerMap \<Rightarrow> 'k InnerMap" where
  "InnerMap_erase key m = filter (\<lambda>kv. fst kv \<noteq> key) m"

text \<open>
  \<open>OwnedPtrMap_addIfNew key ptr m dl\<close>: the by-value parameter \<open>ptr\<close> is emptied by
  \<^verbatim>\<open>releaseRaw\<close>, and its destructor runs when the function returns. The result is the
  return value, the map, the log and the parameter's field at the end.
\<close>

definition OwnedPtrMap_addIfNew ::
  "'k \<Rightarrow> rawptr \<Rightarrow> 'k InnerMap \<Rightarrow> nat list \<Rightarrow> bool \<times> 'k InnerMap \<times> nat list \<times> rawptr" where
  "OwnedPtrMap_addIfNew key ptr m dl =
     (case OwnedPtr_releaseRaw ptr of (value, ptr') \<Rightarrow>
      case InnerMap_insert (key, value) m of (m', inserted) \<Rightarrow>
        if inserted then (True, m', OwnedPtr_destroy ptr' dl, ptr')
        else (False, m', OwnedPtr_destroy ptr' (deleteEnsuringCompleteType value dl), ptr'))"

text \<open>
  \<open>OwnedPtrMap_release key output m dl\<close>: \<open>output\<close> is the field of the caller's handle
  \<^verbatim>\<open>*output\<close>; the result is the return value, that field afterwards, the map and the log.
\<close>

definition OwnedPtrMap_release ::
  "'k \<Rightarrow> rawptr \<Rightarrow> 'k InnerMap \<Rightarrow> nat list \<Rightarrow> bool \<times> rawptr \<times> 'k InnerMap \<times> nat list" where
  "OwnedPtrMap_release key output m dl =
     (case map_of m key of
        None \<Rightarrow> (case OwnedPtr_reset None output dl of (output', dl') \<Rightarrow> (False, output', m, dl'))
      | Some v \<Rightarrow>
          (case OwnedPtr_reset v output dl of (output', dl') \<Rightarrow>
             (True, output', InnerMap_erase key m, dl')))"

definition OwnedPtrMap_destroy :: "'k InnerMap \<Rightarrow> nat list \<Rightarrow> nat list" where
  "OwnedPtrMap_destroy m dl = foldl (\<lambda>l kv. deleteEnsuringCompleteType (snd kv) l) dl m"

definition OwnedPtrMap_clear :: "'k InnerMap \<Rightarrow> nat list \<Rightarrow> 'k InnerMap \<times> nat list" where
  "OwnedPtrMap_clear m dl = ([], foldl (\<lambda>l kv. deleteEnsuringCompleteType (snd kv) l) dl m)"

text \<open>
  The objects a sequence of slots holds, in order. A container owns each of its objects
  once: no object sits in two slots.
\<close>

definition held :: "rawptr list \<Rightarrow> nat list" where
  "held vec = concat (map (\<lambda>p. case p of None \<Rightarrow> [] | Some a \<Rightarrow> [a]) vec)"

subsection \<open>Refcount block, shared handle, weak reference\<close>

text \<open>
  \<^verbatim>\<open>class Refcount\<close> is its two counters. \<^verbatim>\<open>SmartPtr\<close> and \<^verbatim>\<open>WeakPtr\<close> have the same two
  fields: the object pointer and the pointer to the refcount block (\<open>None\<close> for
  \<^verbatim>\<open>NULL\<close>).
\<close>

record Refcount =
  strong :: int
  weak :: int

record Handle =
  ptr :: rawptr
  refcount :: "nat option"

text \<open>
  The store the handles live in. \<open>blocks\<close> maps the address of each allocated refcount
  block to its contents; \<^verbatim>\<open>new Refcount()\<close> takes the next address \<open>nextBlock\<close>, and an
  address is never handed out twice. \<open>freed\<close> logs each \<^verbatim>\<open>delete r\<close> with the counters the
  block had at that moment, \<open>deleted\<close> logs the objects deleted. \<open>nextObject\<close> is the next
  object \<^verbatim>\<open>new T\<close> creates. The three tables hold the handle variables in scope, by name:
  shared handles, weak references and exclusive handles (an exclusive handle is its one
  field).
\<close>

record Store =
  blocks :: "nat \<Rightarrow> Refcount option"
  nextBlock :: nat
  freed :: "(nat \<times> Refcount) list"
  deleted :: "nat list"
  nextObject :: nat
  smart :: "nat \<Rightarrow> Handle option"
  weakp :: "nat \<Rightarrow> Handle option"
  owned :: "nat \<Rightarrow> rawptr option"

definition emptyStore :: Store where
  "emptyStore =
     \<lparr> blocks = (\<lambda>a. None), nextBlock = 0, freed = [], deleted = [], nextObject = 0,
       smart = (\<lambda>h. None), weakp = (\<lambda>w. None), owned = (\<lambda>p. None) \<rparr>"

definition thenDo :: "error + 'a \<Rightarrow> ('a \<Rightarrow> error + 'b) \<Rightarrow> error + 'b" where
  "thenDo m f = (case m of Inl e \<Rightarrow> Inl e | Inr x \<Rightarrow> f x)"

text \<open>
  The static functions of \<^verbatim>\<open>Refcount\<close>. Reading through a pointer to a block that has
  been freed is undefined in C++; the model reports it as \<open>UseAfterFree\<close>.
\<close>

definition Refcount_new :: "Store \<Rightarrow> nat \<times> Store" where
  "Refcount_new s =
     (nextBlock s,
      s\<lparr>blocks := (blocks s)(nextBlock s \<mapsto> \<lparr>strong = 1, weak = 0\<rparr>),
        nextBlock := Suc (nextBlock s)\<rparr>)"

definition Refcount_inc :: "nat option \<Rightarrow> Store \<Rightarrow> error + Store" where
  "Refcount_inc r s =
     (case r of
        None \<Rightarrow> Inr s
      | Some a \<Rightarrow>
          (case blocks s a of
             None \<Rightarrow> Inl UseAfterFree
           | Some rc \<Rightarrow> Inr (s\<lparr>blocks := (blocks s)(a \<mapsto> rc\<lparr>strong := strong rc + 1\<rparr>)\<rparr>)))"

definition Refcount_dec :: "nat option \<Rightarrow> Store \<Rightarrow> error + (bool \<times> Store)" where
  "Refcount_dec r s =
     (case r of
        None \<Rightarrow> Inr (False, s)
      | Some a \<Rightarrow>
          (case blocks s a of
             None \<Rightarrow> Inl UseAfterFree
           | Some rc \<Rightarrow>
               (let rc' = rc\<lparr>strong := strong rc - 1\<rparr> in
                if strong rc' = 0 then
                  (if weak rc' = 0
                   then Inr (True, s\<lparr>blocks := (blocks s)(a := None),
                                     freed := freed s @ [(a, rc')]\<rparr>)
                   else Inr (True, s\<lparr>blocks := (blocks s)(a \<mapsto> rc')\<rparr>))
                else Inr (False, s\<lparr>blocks := (blocks s)(a \<mapsto> rc')\<rparr>))))"

definition Refcount_incWeak :: "nat option \<Rightarrow> Store \<Rightarrow> error + Store" where
  "Refcount_incWeak r s =
     (case r of
        None \<Rightarrow> Inr s
      | Some a \<Rightarrow>
          (case blocks s a of
             None \<Rightarrow> Inl UseAfterFree
           | Some rc \<Rightarrow> Inr (s\<lparr>blocks := (blocks s)(a \<mapsto> rc\<lparr>weak := weak rc + 1\<rparr>)\<rparr>)))"

definition Refcount_decWeak :: "nat option \<Rightarrow> Store \<Rightarrow> error + Store" where
  "Refcount_decWeak r s =
     (case r of
        None \<Rightarrow> Inr s
      | Some a \<Rightarrow>
          (case blocks s a of
             None \<Rightarrow> Inl UseAfterFree
           | Some rc \<Rightarrow>
               (let rc' = rc\<lparr>weak := weak rc - 1\<rparr> in
                if weak rc' = 0 \<and> strong rc' = 0
                then Inr (s\<lparr>blocks := (blocks s)(a := None), freed := freed s @ [(a, rc')]\<rparr>)
                else Inr (s\<lparr>blocks := (blocks s)(a \<mapsto> rc')\<rparr>))))"

definition Refcount_release :: "nat option \<Rightarrow> Store \<Rightarrow> error + (bool \<times> Store)" where
  "Refcount_release r s =
     (case r of
        None \<Rightarrow> Inr (False, s)
      | Some a \<Rightarrow>
          (case blocks s a of
             None \<Rightarrow> Inl UseAfterFree
           | Some rc \<Rightarrow>
               if strong rc = 1
               then thenDo (Refcount_dec r s) (\<lambda>(b, s'). Inr (True, s'))
               else Inr (False, s)))"

definition Refcount_isLive :: "nat option \<Rightarrow> Store \<Rightarrow> error + bool" where
  "Refcount_isLive r s =
     (case r of
        None \<Rightarrow> Inr False
      | Some a \<Rightarrow>
          (case blocks s a of
             None \<Rightarrow> Inl UseAfterFree
           | Some rc \<Rightarrow> Inr (0 < strong rc)))"

text \<open>Reading and writing a handle variable, declaring one and taking one out of scope.\<close>

definition getSmart :: "nat \<Rightarrow> Store \<Rightarrow> error + Handle" where
  "getSmart h s = (case smart s h of None \<Rightarrow> Inl NotInScope | Some cur \<Rightarrow> Inr cur)"

definition setSmart :: "nat \<Rightarrow> Handle \<Rightarrow> Store \<Rightarrow> Store" where
  "setSmart h cur s = s\<lparr>smart := (smart s)(h \<mapsto> cur)\<rparr>"

definition getWeak :: "nat \<Rightarrow> Store \<Rightarrow> error + Handle" where
  "getWeak w s = (case weakp s w of None \<Rightarrow> Inl NotInScope | Some cur \<Rightarrow> Inr cur)"

definition setWeak :: "nat \<Rightarrow> Handle \<Rightarrow> Store \<Rightarrow> Store" where
  "setWeak w cur s = s\<lparr>weakp := (weakp s)(w \<mapsto> cur)\<rparr>"

definition getOwned :: "nat \<Rightarrow> Store \<Rightarrow> error + rawptr" where
  "getOwned p s = (case owned s p of None \<Rightarrow> Inl NotInScope | Some v \<Rightarrow> Inr v)"

definition setOwned :: "nat \<Rightarrow> rawptr \<Rightarrow> Store \<Rightarrow> Store" where
  "setOwned p v s = s\<lparr>owned := (owned s)(p \<mapsto> v)\<rparr>"

definition nullHandle :: Handle where
  "nullHandle = \<lparr>ptr = None, refcount = None\<rparr>"

definition deleteObject :: "rawptr \<Rightarrow> Store \<Rightarrow> Store" where
  "deleteObject p s = s\<lparr>deleted := deleteEnsuringCompleteType p (deleted s)\<rparr>"

text \<open>
  The member functions of \<^verbatim>\<open>SmartPtr\<close>; \<open>this\<close> names the handle they are called on. A
  constructor declares \<open>this\<close>, the destructor takes it out of scope.
\<close>

definition SmartPtr_new :: "nat \<Rightarrow> Store \<Rightarrow> error + Store" where
  "SmartPtr_new this s =
     (if smart s this \<noteq> None then Inl AlreadyDeclared else Inr (setSmart this nullHandle s))"

definition SmartPtr_destroy :: "nat \<Rightarrow> Store \<Rightarrow> error + Store" where
  "SmartPtr_destroy this s =
     thenDo (getSmart this s) (\<lambda>cur.
     thenDo (Refcount_dec (refcount cur) s) (\<lambda>(b, s1).
       Inr ((if b then deleteObject (ptr cur) s1 else s1)\<lparr>smart := (smart s1)(this := None)\<rparr>)))"

definition SmartPtr_copy :: "nat \<Rightarrow> nat \<Rightarrow> Store \<Rightarrow> error + Store" where
  "SmartPtr_copy this other s =
     (if smart s this \<noteq> None then Inl AlreadyDeclared
      else thenDo (getSmart other s) (\<lambda>src.
           Refcount_inc (refcount src) (setSmart this \<lparr>ptr = ptr src, refcount = refcount src\<rparr> s)))"

definition SmartPtr_reset2 :: "nat \<Rightarrow> rawptr \<Rightarrow> nat option \<Rightarrow> Store \<Rightarrow> error + Store" where
  "SmartPtr_reset2 this newValue newRefcount s =
     thenDo (getSmart this s) (\<lambda>cur.
       let oldValue = ptr cur; oldRefcount = refcount cur;
           s1 = setSmart this \<lparr>ptr = newValue, refcount = newRefcount\<rparr> s
       in thenDo (Refcount_inc newRefcount s1) (\<lambda>s2.
          thenDo (Refcount_dec oldRefcount s2) (\<lambda>(b, s3).
            Inr (if b then deleteObject oldValue s3 else s3))))"

definition SmartPtr_reset1 :: "nat \<Rightarrow> rawptr \<Rightarrow> Store \<Rightarrow> error + Store" where
  "SmartPtr_reset1 this newValue s =
     (case (case newValue of None \<Rightarrow> (None, s)
            | Some v \<Rightarrow> (case Refcount_new s of (a, s') \<Rightarrow> (Some a, s'))) of
        (newRefcount, s0) \<Rightarrow>
          thenDo (SmartPtr_reset2 this newValue newRefcount s0) (\<lambda>s1.
          thenDo (getSmart this s1) (\<lambda>cur.
          thenDo (Refcount_dec (refcount cur) s1) (\<lambda>(b, s2). Inr s2))))"

definition SmartPtr_assign :: "nat \<Rightarrow> nat \<Rightarrow> Store \<Rightarrow> error + Store" where
  "SmartPtr_assign this other s =
     thenDo (getSmart other s) (\<lambda>src. SmartPtr_reset2 this (ptr src) (refcount src) s)"

definition SmartPtr_move :: "nat \<Rightarrow> nat \<Rightarrow> Store \<Rightarrow> error + Store" where
  "SmartPtr_move this other s =
     (if smart s this \<noteq> None then Inl AlreadyDeclared
      else thenDo (getSmart other s) (\<lambda>src.
           Inr (setSmart other nullHandle
                  (setSmart this \<lparr>ptr = ptr src, refcount = refcount src\<rparr> s))))"

definition SmartPtr_moveAssign :: "nat \<Rightarrow> nat \<Rightarrow> Store \<Rightarrow> error + Store" where
  "SmartPtr_moveAssign this other s =
     thenDo (getSmart other s) (\<lambda>src.
       let tempPtr = ptr src; tempRefcount = refcount src;
           s1 = setSmart other nullHandle s
       in thenDo (SmartPtr_reset2 this None None s1) (\<lambda>s2.
            Inr (setSmart this \<lparr>ptr = tempPtr, refcount = tempRefcount\<rparr> s2)))"

definition SmartPtr_fromOwned :: "nat \<Rightarrow> nat \<Rightarrow> Store \<Rightarrow> error + Store" where
  "SmartPtr_fromOwned this other s =
     (if smart s this \<noteq> None then Inl AlreadyDeclared
      else thenDo (getOwned other s) (\<lambda>p.
           let s1 = setOwned other None s in
           (case p of
              None \<Rightarrow> Inr (setSmart this nullHandle s1)
            | Some v \<Rightarrow>
                (case Refcount_new s1 of (a, s2) \<Rightarrow>
                   Inr (setSmart this \<lparr>ptr = p, refcount = Some a\<rparr> s2)))))"

definition SmartPtr_assignOwned :: "nat \<Rightarrow> nat \<Rightarrow> Store \<Rightarrow> error + Store" where
  "SmartPtr_assignOwned this other s =
     thenDo (getOwned other s) (\<lambda>p. SmartPtr_reset1 this p (setOwned other None s))"

definition SmartPtr_release :: "nat \<Rightarrow> nat \<Rightarrow> Store \<Rightarrow> error + (bool \<times> Store)" where
  "SmartPtr_release this other s =
     thenDo (getSmart this s) (\<lambda>cur.
     thenDo (getOwned other s) (\<lambda>old.
     thenDo (Refcount_release (refcount cur) s) (\<lambda>(b, s1).
       if b
       then Inr (True,
                 setSmart this (cur\<lparr>ptr := None\<rparr>)
                   (deleteObject old (setOwned other (ptr cur) s1)))
       else Inr (False, s1))))"

definition SmartPtr_clear :: "nat \<Rightarrow> Store \<Rightarrow> error + Store" where
  "SmartPtr_clear this s = SmartPtr_reset1 this None s"

definition SmartPtr_allocate :: "nat \<Rightarrow> Store \<Rightarrow> error + Store" where
  "SmartPtr_allocate this s =
     SmartPtr_reset1 this (Some (nextObject s)) (s\<lparr>nextObject := Suc (nextObject s)\<rparr>)"

text \<open>The member functions of \<^verbatim>\<open>WeakPtr\<close>.\<close>

definition WeakPtr_new :: "nat \<Rightarrow> Store \<Rightarrow> error + Store" where
  "WeakPtr_new this s =
     (if weakp s this \<noteq> None then Inl AlreadyDeclared else Inr (setWeak this nullHandle s))"

definition WeakPtr_copy :: "nat \<Rightarrow> nat \<Rightarrow> Store \<Rightarrow> error + Store" where
  "WeakPtr_copy this other s =
     (if weakp s this \<noteq> None then Inl AlreadyDeclared
      else thenDo (getWeak other s) (\<lambda>src.
           Refcount_incWeak (refcount src) (setWeak this \<lparr>ptr = ptr src, refcount = refcount src\<rparr> s)))"

definition WeakPtr_fromSmart :: "nat \<Rightarrow> nat \<Rightarrow> Store \<Rightarrow> error + Store" where
  "WeakPtr_fromSmart this other s =
     (if weakp s this \<noteq> None then Inl AlreadyDeclared
      else thenDo (getSmart other s) (\<lambda>src.
           Refcount_incWeak (refcount src) (setWeak this \<lparr>ptr = ptr src, refcount = refcount src\<rparr> s)))"

definition WeakPtr_destroy :: "nat \<Rightarrow> Store \<Rightarrow> error + Store" where
  "WeakPtr_destroy this s =
     thenDo (getWeak this s) (\<lambda>cur.
     thenDo (Refcount_decWeak (refcount cur) s) (\<lambda>s1.
       Inr (s1\<lparr>weakp := (weakp s1)(this := None)\<rparr>)))"

definition WeakPtr_set :: "nat \<Rightarrow> Handle \<Rightarrow> Store \<Rightarrow> error + Store" where
  "WeakPtr_set this src s =
     thenDo (getWeak this s) (\<lambda>cur.
       let oldRefcount = refcount cur;
           s1 = setWeak this \<lparr>ptr = ptr src, refcount = refcount src\<rparr> s
       in thenDo (Refcount_incWeak (refcount src) s1) (\<lambda>s2. Refcount_decWeak oldRefcount s2))"

definition WeakPtr_assign :: "nat \<Rightarrow> nat \<Rightarrow> Store \<Rightarrow> error + Store" where
  "WeakPtr_assign this other s = thenDo (getWeak other s) (\<lambda>src. WeakPtr_set this src s)"

definition WeakPtr_assignSmart :: "nat \<Rightarrow> nat \<Rightarrow> Store \<Rightarrow> error + Store" where
  "WeakPtr_assignSmart this other s = thenDo (getSmart other s) (\<lambda>src. WeakPtr_set this src s)"

definition WeakPtr_assignNull :: "nat \<Rightarrow> Store \<Rightarrow> error + Store" where
  "WeakPtr_assignNull this s =
     thenDo (getWeak this s) (\<lambda>cur.
     thenDo (Refcount_decWeak (refcount cur) s) (\<lambda>s1. Inr (setWeak this nullHandle s1)))"

definition WeakPtr_toSmart :: "nat \<Rightarrow> nat \<Rightarrow> Store \<Rightarrow> error + Store" where
  "WeakPtr_toSmart this result s =
     (if smart s result \<noteq> None then Inl AlreadyDeclared
      else thenDo (getWeak this s) (\<lambda>cur.
           let s1 = setSmart result nullHandle s in
           thenDo (Refcount_isLive (refcount cur) s1) (\<lambda>live.
             if live then SmartPtr_reset2 result (ptr cur) (refcount cur) s1 else Inr s1)))"

text \<open>Exclusive handle variables: declared holding a fresh object, or declared empty.\<close>

definition OwnedPtr_newOwned :: "nat \<Rightarrow> Store \<Rightarrow> error + Store" where
  "OwnedPtr_newOwned this s =
     (if owned s this \<noteq> None then Inl AlreadyDeclared
      else Inr (setOwned this (Some (nextObject s)) (s\<lparr>nextObject := Suc (nextObject s)\<rparr>)))"

definition OwnedPtr_new :: "nat \<Rightarrow> Store \<Rightarrow> error + Store" where
  "OwnedPtr_new this s =
     (if owned s this \<noteq> None then Inl AlreadyDeclared else Inr (setOwned this None s))"

text \<open>A statement of a program over handle variables, and a program run from left to right.\<close>

datatype Op =
    SmartNew nat | SmartCopy nat nat | SmartAssign nat nat | SmartMove nat nat
  | SmartMoveAssign nat nat | SmartFromOwned nat nat | SmartAssignOwned nat nat
  | SmartRelease nat nat | SmartClear nat | SmartAllocate nat | SmartDestroy nat
  | WeakNew nat | WeakCopy nat nat | WeakFromSmart nat nat | WeakAssign nat nat
  | WeakAssignSmart nat nat | WeakAssignNull nat | WeakDestroy nat | Upgrade nat nat
  | OwnedNewObject nat | OwnedNew nat

fun step :: "Op \<Rightarrow> Store \<Rightarrow> error + Store" where
  "step (SmartNew h) s = SmartPtr_new h s"
| "step (SmartCopy h other) s = SmartPtr_copy h other s"
| "step (SmartAssign h other) s = SmartPtr_assign h other s"
| "step (SmartMove h other) s = SmartPtr_move h other s"
| "step (SmartMoveAssign h other) s = SmartPtr_moveAssign h other s"
| "step (SmartFromOwned h p) s = SmartPtr_fromOwned h p s"
| "step (SmartAssignOwned h p) s = SmartPtr_assignOwned h p s"
| "step (SmartRelease h p) s = thenDo (SmartPtr_release h p s) (\<lambda>(b, s'). Inr s')"
| "step (SmartClear h) s = SmartPtr_clear h s"
| "step (SmartAllocate h) s = SmartPtr_allocate h s"
| "step (SmartDestroy h) s = SmartPtr_destroy h s"
| "step (WeakNew w) s = WeakPtr_new w s"
| "step (WeakCopy w other) s = WeakPtr_copy w other s"
| "step (WeakFromSmart w h) s = WeakPtr_fromSmart w h s"
| "step (WeakAssign w other) s = WeakPtr_assign w other s"
| "step (WeakAssignSmart w h) s = WeakPtr_assignSmart w h s"
| "step (WeakAssignNull w) s = WeakPtr_assignNull w s"
| "step (WeakDestroy w) s = WeakPtr_destroy w s"
| "step (Upgrade w h) s = WeakPtr_toSmart w h s"
| "step (OwnedNewObject p) s = OwnedPtr_newOwned p s"
| "step (OwnedNew p) s = OwnedPtr_new p s"

fun exec :: "Op list \<Rightarrow> Store \<Rightarrow> error + Store" where
  "exec [] s = Inr s"
| "exec (c # cs) s = thenDo (step c s) (exec cs)"

subsection \<open>Counters, handles and objects of a store\<close>

text \<open>
  The strong and the weak counter of a block, read as zero for a block that is not
  allocated, and a counter function changed at one block.
\<close>

definition strongOf :: "Store \<Rightarrow> nat \<Rightarrow> int" where
  "strongOf s r = (case blocks s r of None \<Rightarrow> 0 | Some rc \<Rightarrow> strong rc)"

definition weakOf :: "Store \<Rightarrow> nat \<Rightarrow> int" where
  "weakOf s r = (case blocks s r of None \<Rightarrow> 0 | Some rc \<Rightarrow> weak rc)"

definition bump :: "nat option \<Rightarrow> int \<Rightarrow> (nat \<Rightarrow> int) \<Rightarrow> nat \<Rightarrow> int" where
  "bump r k f = (case r of None \<Rightarrow> f | Some a \<Rightarrow> f(a := f a + k))"

text \<open>
  The heap of blocks is in order: an allocated block has no negative counter and at least
  one positive counter, no block beyond \<open>nextBlock\<close> is allocated, and every block that
  was freed had both counters at zero when it was freed.
\<close>

definition heapOk :: "Store \<Rightarrow> bool" where
  "heapOk s =
     ((\<forall>r rc. blocks s r = Some rc \<longrightarrow>
         0 \<le> strong rc \<and> 0 \<le> weak rc \<and> (0 < strong rc \<or> 0 < weak rc)) \<and>
      (\<forall>r. nextBlock s \<le> r \<longrightarrow> blocks s r = None) \<and>
      (\<forall>x \<in> set (freed s). strong (snd x) = 0 \<and> weak (snd x) = 0))"

text \<open>What the static functions of \<^verbatim>\<open>Refcount\<close> leave alone.\<close>

definition frame :: "Store \<Rightarrow> Store \<Rightarrow> bool" where
  "frame s s' =
     (smart s' = smart s \<and> weakp s' = weakp s \<and> owned s' = owned s \<and>
      deleted s' = deleted s \<and> nextObject s' = nextObject s)"

text \<open>
  The block and the object of a handle variable that may be out of scope, and the number
  of variables of a table that refer to a block. The counters are in order when each is the
  number of handles that refer to its block.
\<close>

definition refOf :: "Handle option \<Rightarrow> nat option" where
  "refOf x = (case x of None \<Rightarrow> None | Some cur \<Rightarrow> refcount cur)"

definition ptrOf :: "Handle option \<Rightarrow> rawptr" where
  "ptrOf x = (case x of None \<Rightarrow> None | Some cur \<Rightarrow> ptr cur)"

definition refs :: "(nat \<Rightarrow> Handle option) \<Rightarrow> nat \<Rightarrow> nat" where
  "refs t r = card {h. refOf (t h) = Some r}"

definition countsOk :: "Store \<Rightarrow> bool" where
  "countsOk s =
     (finite (dom (smart s)) \<and> finite (dom (weakp s)) \<and>
      (\<forall>r. strongOf s r = int (refs (smart s) r)) \<and>
      (\<forall>r. weakOf s r = int (refs (weakp s) r)))"

text \<open>
  A pointer and block pair is held when a shared handle or a weak reference in scope has
  it. The objects are in order: a held pair has a null pointer exactly when it has a null
  block, two held pairs have the same object exactly when they have the same block, every
  object was created, the object of a shared handle is not deleted, no object is deleted
  twice, and an object in an exclusive handle is in no other handle, shared, weak or
  exclusive, and is not deleted.
\<close>

definition holds :: "Store \<Rightarrow> Handle \<Rightarrow> bool" where
  "holds s c = ((\<exists>k. smart s k = Some c) \<or> (\<exists>k. weakp s k = Some c))"

definition objectsOk :: "Store \<Rightarrow> bool" where
  "objectsOk s =
     ((\<forall>c. holds s c \<longrightarrow> (ptr c = None) = (refcount c = None)) \<and>
      (\<forall>c c'. holds s c \<longrightarrow> holds s c' \<longrightarrow> (ptr c = ptr c') = (refcount c = refcount c')) \<and>
      (\<forall>c p. holds s c \<longrightarrow> ptr c = Some p \<longrightarrow> p < nextObject s) \<and>
      (\<forall>k c p. smart s k = Some c \<longrightarrow> ptr c = Some p \<longrightarrow> p \<notin> set (deleted s)) \<and>
      distinct (deleted s) \<and>
      (\<forall>p \<in> set (deleted s). p < nextObject s) \<and>
      (\<forall>k p. owned s k = Some (Some p) \<longrightarrow>
         p < nextObject s \<and> p \<notin> set (deleted s) \<and> (\<forall>c. holds s c \<longrightarrow> ptr c \<noteq> Some p)) \<and>
      (\<forall>k k' p. owned s k = Some (Some p) \<longrightarrow> owned s k' = Some (Some p) \<longrightarrow> k = k'))"

definition Inv :: "Store \<Rightarrow> bool" where
  "Inv s = (heapOk s \<and> countsOk s \<and> objectsOk s)"

text \<open>
  One statement from \<open>s\<close> to \<open>s'\<close> deletes the object of a shared handle of \<open>s\<close> exactly
  when it brings the strong counter of the object's block to zero.
\<close>

definition destroyedIffZero :: "Store \<Rightarrow> Store \<Rightarrow> bool" where
  "destroyedIffZero s s' =
     (\<forall>k c p a. smart s k = Some c \<longrightarrow> ptr c = Some p \<longrightarrow> refcount c = Some a \<longrightarrow>
        (p \<in> set (deleted s')) = (strongOf s' a = 0))"

text \<open>
  Where the new content of a handle variable comes from: the variable goes out of scope,
  it is set to null, it takes the pair of a handle in scope (a shared handle only one whose
  block is live), or it takes a created object nothing else has together with the block
  allocated next.
\<close>

definition origin :: "Store \<Rightarrow> Store \<Rightarrow> Handle option \<Rightarrow> bool" where
  "origin s s' x =
     (x = None \<or> x = Some nullHandle \<or>
      (\<exists>e. x = Some e \<and> holds s e \<and> (\<forall>a. refcount e = Some a \<longrightarrow> 0 < strongOf s a)) \<or>
      (\<exists>p. x = Some \<lparr>ptr = Some p, refcount = Some (nextBlock s)\<rparr> \<and> p < nextObject s' \<and>
           p \<notin> set (deleted s) \<and> (\<forall>c. holds s c \<longrightarrow> ptr c \<noteq> Some p) \<and>
           (\<forall>k. owned s' k \<noteq> Some (Some p))))"

definition originWeak :: "Store \<Rightarrow> Handle option \<Rightarrow> bool" where
  "originWeak s y = (y = None \<or> y = Some nullHandle \<or> (\<exists>e. y = Some e \<and> holds s e))"

definition unused :: "Store \<Rightarrow> nat \<Rightarrow> bool" where
  "unused s v =
     (v < nextObject s \<and> v \<notin> set (deleted s) \<and> (\<forall>c. holds s c \<longrightarrow> ptr c \<noteq> Some v) \<and>
      (\<forall>k. owned s k \<noteq> Some (Some v)))"

text \<open>
  A statement run in a store that is in order either leaves a store in order, having
  deleted exactly the objects whose strong counter it brought to zero, or it names a
  variable that is not in scope or declares one that is (a program that does not compile).
  It never reads a freed block.
\<close>

definition outcome :: "Store \<Rightarrow> error + Store \<Rightarrow> bool" where
  "outcome s r =
     ((\<exists>s'. r = Inr s' \<and> Inv s' \<and> destroyedIffZero s s') \<or>
      r = Inl NotInScope \<or> r = Inl AlreadyDeclared)"

text \<open>Programs without release-to-exclusive.\<close>

fun isRelease :: "Op \<Rightarrow> bool" where
  "isRelease (SmartRelease h p) = True"
| "isRelease c = False"

definition releaseFree :: "Op list \<Rightarrow> bool" where
  "releaseFree ops = list_all (\<lambda>c. \<not> isRelease c) ops"

text \<open>What a run shows of its final store.\<close>

definition observe :: "(Store \<Rightarrow> 'a) \<Rightarrow> error + Store \<Rightarrow> error + 'a" where
  "observe f r = (case r of Inl e \<Rightarrow> Inl e | Inr s \<Rightarrow> Inr (f s))"

section \<open>Properties of the process manager\<close>

subsection \<open>Capture configuration (C1)\<close>

lemma capture_combined_excl:
  "stdoutAndStderrPipe s \<noteq> None \<longrightarrow> stdoutPipe s = None \<and> stderrPipe s = None \<Longrightarrow>
   stdoutAndStderrPipe (capture s c) \<noteq> None \<longrightarrow>
     stdoutPipe (capture s c) = None \<and> stderrPipe (capture s c) = None"
  by (cases c) (simp_all add: captureStdout_def captureStderr_def captureStdoutAndStderr_def)

lemma captures_snoc: "captures (cs @ [c]) s = capture (captures cs s) c"
  by (simp add: captures_def)

lemma captures_combined_excl:
  "stdoutAndStderrPipe (captures cs (new_Subprocess u)) \<noteq> None \<longrightarrow>
     stdoutPipe (captures cs (new_Subprocess u)) = None \<and>
     stderrPipe (captures cs (new_Subprocess u)) = None"
proof (induction cs rule: rev_induct)
  case Nil
  show ?case by (simp add: captures_def new_Subprocess_def)
next
  case (snoc c cs)
  show ?case unfolding captures_snoc by (rule capture_combined_excl) (rule snoc.IH)
qed

text \<open>
  C1, as stated: after every sequence of capture calls at most one mode is active. It fails:
  \<^verbatim>\<open>captureStdout\<close> and \<^verbatim>\<open>captureStderr\<close> clear only the combined binding, never each
  other, so the two calls in a row leave two bindings set.
\<close>

theorem C1_counterexample:
  "activeModes (captures [CaptureStdout 0, CaptureStderr 1] (new_Subprocess 0)) = 2"
  by (simp add: captures_def captureStdout_def captureStderr_def activeModes_def
      new_Subprocess_def)

text \<open>
  C1, amended: after every sequence of capture calls on a fresh process manager, combined
  capture is never active together with stdout-only or stderr-only capture. The last call
  wins between the combined mode and the separate ones: a call selecting the combined mode
  leaves it as the only binding, a call selecting stdout-only or stderr-only sets that
  binding and clears the combined one, and leaves the other separate binding as it was.
\<close>

theorem C1_combined_exclusive:
  "(stdoutAndStderrPipe (captures cs (new_Subprocess u)) \<noteq> None \<longrightarrow>
      stdoutPipe (captures cs (new_Subprocess u)) = None \<and>
      stderrPipe (captures cs (new_Subprocess u)) = None) \<and>
   (let s = captures cs (new_Subprocess u) in
      stdoutAndStderrPipe (capture s (CaptureStdoutAndStderr p)) = Some p \<and>
      stdoutPipe (capture s (CaptureStdoutAndStderr p)) = None \<and>
      stderrPipe (capture s (CaptureStdoutAndStderr p)) = None \<and>
      stdoutPipe (capture s (CaptureStdout p)) = Some p \<and>
      stdoutAndStderrPipe (capture s (CaptureStdout p)) = None \<and>
      stderrPipe (capture s (CaptureStdout p)) = stderrPipe s \<and>
      stderrPipe (capture s (CaptureStderr p)) = Some p \<and>
      stdoutAndStderrPipe (capture s (CaptureStderr p)) = None \<and>
      stdoutPipe (capture s (CaptureStderr p)) = stdoutPipe s)"
  using captures_combined_excl [of cs u]
  by (simp add: Let_def captureStdout_def captureStderr_def captureStdoutAndStderr_def)

theorem C1_combined_exclusive_witness:
  "stdoutAndStderrPipe
     (captures [CaptureStdout 0, CaptureStderr 1, CaptureStdoutAndStderr 2] (new_Subprocess 0))
     = Some 2 \<and>
   stdoutPipe
     (captures [CaptureStdout 0, CaptureStderr 1, CaptureStdoutAndStderr 2] (new_Subprocess 0))
     = None \<and>
   stderrPipe
     (captures [CaptureStdout 0, CaptureStderr 1, CaptureStdoutAndStderr 2] (new_Subprocess 0))
     = None"
  using C1_combined_exclusive
    [of "[CaptureStdout 0, CaptureStderr 1, CaptureStdoutAndStderr 2]" 0 7]
  by (simp add: captures_def captureStdout_def captureStderr_def captureStdoutAndStderr_def
      new_Subprocess_def)


subsection \<open>Completion (C2)\<close>

lemma run_append:
  "run (xs @ ys) w = (case run xs w of Inl x \<Rightarrow> Inl x | Inr w' \<Rightarrow> run ys w')"
  by (induction xs arbitrary: w) (auto split: sum.splits)

lemma drains_snoc: "drains (pre @ [e]) = drains pre + (if e = PipeDrained then 1 else 0)"
  by (simp add: drains_def)

lemma exits_snoc: "exits (pre @ [e]) = exits pre @ (if e = PipeDrained then [] else [e])"
  by (simp add: exits_def)

lemma exits_not_drain: "exits pre = e # es \<Longrightarrow> e \<noteq> PipeDrained"
  unfolding exits_def by (metis (mono_tags, lifting) filter_eq_ConsD)

lemma progress_step:
  assumes "progress K cb pre w" "drains (pre @ [e]) \<le> K" "length (exits (pre @ [e])) \<le> 1"
  shows "\<exists>w'. deliver e w = Inr w' \<and> progress K cb (pre @ [e]) w'"
proof (cases w)
  case (Pair s log)
  show ?thesis
  proof (cases e)
    case PipeDrained
    show ?thesis
    proof (cases "exits pre")
      case Nil
      then show ?thesis using assms Pair PipeDrained
        by (auto simp: progress_def drains_snoc exits_snoc pipeDone_def maybeCallFinalCallback_def)
    next
      case (Cons x xs)
      then have "x \<noteq> PipeDrained" by (rule exits_not_drain)
      then show ?thesis using assms Pair PipeDrained Cons
        by (cases x) (auto simp: progress_def drains_snoc exits_snoc pipeDone_def maybeCallFinalCallback_def)
    qed
  next
    case (ProcessExited n)
    then show ?thesis using assms Pair
      by (auto simp: progress_def drains_snoc exits_snoc done'_def maybeCallFinalCallback_def
          split: list.splits if_splits)
  next
    case (ProcessSignaled n)
    then show ?thesis using assms Pair
      by (auto simp: progress_def drains_snoc exits_snoc done'_def maybeCallFinalCallback_def
          split: list.splits if_splits)
  qed
qed

lemma drains_mono: "drains pre \<le> drains (pre @ post)"
  by (simp add: drains_def)

lemma exits_mono: "length (exits pre) \<le> length (exits (pre @ post))"
  by (simp add: exits_def)

lemma run_progress:
  assumes "progress K cb [] w" 
  shows "drains evs \<le> K \<Longrightarrow> length (exits evs) \<le> 1 \<Longrightarrow> \<exists>w'. run evs w = Inr w' \<and> progress K cb evs w'"
proof (induction evs rule: rev_induct)
  case Nil
  then show ?case using assms by simp
next
  case (snoc e evs)
  have "drains evs \<le> K" using snoc.prems(1) drains_mono [of evs "[e]"] by linarith
  moreover have "length (exits evs) \<le> 1" using snoc.prems(2) exits_mono [of evs "[e]"] by linarith
  ultimately obtain w1 where w1: "run evs w = Inr w1" "progress K cb evs w1"
    using snoc.IH by blast
  from progress_step [OF w1(2) snoc.prems] obtain w2 where
    "deliver e w1 = Inr w2" "progress K cb (evs @ [e]) w2" by blast
  then show ?case using w1(1) by (simp add: run_append)
qed

text \<open>What \<open>start\<close> leaves in the parent.\<close>

lemma start_parent:
  assumes "start forkResult errno execFails token cbo s0 = InParent s"
  shows "0 < forkResult \<and> state s = RUNNING \<and> finalCallback s = cbo \<and> canceler s = Some token \<and>
         pid s = forkResult \<and> pipeCount s = pipeCount s0 + int (activeModes s0) \<and>
         stdoutPipe s = None \<and> stderrPipe s = None \<and> stdoutAndStderrPipe s = None \<and>
         args s = args s0 \<and> diskRefs s = diskRefs s0 \<and> executableName s = executableName s0 \<and>
         doPathLookup s = doPathLookup s0"
  using assms
  by (auto simp: start_def parentBranch_def activeModes_def Let_def split: if_splits prod.splits)

lemma start_progress:
  assumes "start forkResult errno execFails token (Some cb) s0 = InParent s" "pipeCount s0 = 0"
  shows "progress (activeModes s0) cb [] (s, [])"
  using start_parent [OF assms(1)] assms(2) by (simp add: progress_def drains_def exits_def)

lemma progress_fired_iff:
  assumes "progress K cb pre (s, log)" "drains pre \<le> K"
  shows "(log \<noteq> [] \<longleftrightarrow> pipeCount s = 0 \<and> terminal (state s)) \<and> length log \<le> 1 \<and>
         (finalCallback s = None \<longleftrightarrow> log \<noteq> []) \<and> (log = [] \<longrightarrow> finalCallback s = Some cb) \<and>
         (\<forall>x \<in> set log. fst x = cb)"
proof (cases "exits pre")
  case Nil
  then show ?thesis using assms by (simp add: progress_def terminal_def)
next
  case (Cons e es)
  then have "e \<noteq> PipeDrained" by (rule exits_not_drain)
  then show ?thesis using assms Cons
    by (cases e) (auto simp: progress_def terminal_def split: if_splits)
qed

lemma take_counts:
  "drains (take n evs) \<le> drains evs" "length (exits (take n evs)) \<le> length (exits evs)"
  using drains_mono [of "take n evs" "drop n evs"] exits_mono [of "take n evs" "drop n evs"]
  by simp_all

text \<open>
  C2: a process manager is started (the parent branch of \<open>start\<close>, with a callback \<open>cb\<close>,
  on a manager whose pipe counter is still zero), every configured pipe's drain
  notification arrives exactly once and exactly one exit or signal notification \<open>e\<close>
  arrives, in any order \<open>evs\<close>. Then no notification trips an assertion, and after every
  prefix of the run the callback has been invoked if and only if the pending-pipe counter
  is zero and the state is terminal; it has been invoked at most once; the manager holds
  no callback if and only if it has invoked it (it lets go of it in the same step). Over
  the whole run the callback is invoked exactly once, with the exit notification's tag and
  number.
\<close>

theorem C2_completion_callback:
  assumes "start forkResult errno execFails token (Some cb) s0 = InParent s"
    and "pipeCount s0 = 0"
    and "drains evs = activeModes s0"
    and "exits evs = [e]"
  shows "(\<forall>n \<le> length evs. \<exists>s' log.
            run (take n evs) (s, []) = Inr (s', log) \<and>
            (log \<noteq> [] \<longleftrightarrow> pipeCount s' = 0 \<and> terminal (state s')) \<and>
            length log \<le> 1 \<and>
            (finalCallback s' = None \<longleftrightarrow> log \<noteq> [])) \<and>
         (\<exists>s'. run evs (s, []) = Inr (s', [(cb, noticeOf e)]) \<and> finalCallback s' = None)"
proof (intro conjI allI impI)
  fix n assume "n \<le> length evs"
  have "drains (take n evs) \<le> activeModes s0" "length (exits (take n evs)) \<le> 1"
    using take_counts [of n evs] assms(3,4) by simp_all
  from run_progress [OF start_progress [OF assms(1,2)] this]
  obtain s' log where r: "run (take n evs) (s, []) = Inr (s', log)"
      "progress (activeModes s0) cb (take n evs) (s', log)" by auto
  from progress_fired_iff [OF r(2) \<open>drains (take n evs) \<le> activeModes s0\<close>] r(1)
  show "\<exists>s' log. run (take n evs) (s, []) = Inr (s', log) \<and>
            (log \<noteq> [] \<longleftrightarrow> pipeCount s' = 0 \<and> terminal (state s')) \<and>
            length log \<le> 1 \<and> (finalCallback s' = None \<longleftrightarrow> log \<noteq> [])"
    by (intro exI [of _ s'] exI [of _ log]) simp
next
  have "drains evs \<le> activeModes s0" "length (exits evs) \<le> 1" using assms(3,4) by simp_all
  from run_progress [OF start_progress [OF assms(1,2)] this]
  obtain s' log where r: "run evs (s, []) = Inr (s', log)"
      "progress (activeModes s0) cb evs (s', log)" by auto
  then show "\<exists>s'. run evs (s, []) = Inr (s', [(cb, noticeOf e)]) \<and> finalCallback s' = None"
    using assms(3,4) by (auto simp: progress_def)
qed

theorem C2_completion_callback_witness:
  "\<exists>s'. run [PipeDrained, ProcessExited 0, PipeDrained]
      (parentBranch 3 (Some 9)
         ((fst (captureStderr 6 (fst (captureStdout 5 (addArgument ''ls'' (new_Subprocess 0))))))\<lparr>pid := 77\<rparr>), [])
     = Inr (s', [(9, Exited 0)]) \<and> finalCallback s' = None"
  using C2_completion_callback [of 77 0 "\<lambda>_. False" 3 9
      "fst (captureStderr 6 (fst (captureStdout 5 (addArgument ''ls'' (new_Subprocess 0)))))"
      "parentBranch 3 (Some 9)
         ((fst (captureStderr 6 (fst (captureStdout 5 (addArgument ''ls'' (new_Subprocess 0))))))\<lparr>pid := 77\<rparr>)"
      "[PipeDrained, ProcessExited 0, PipeDrained]" "ProcessExited 0"]
  by (simp add: start_def captureStdout_def captureStderr_def addArgument_def new_Subprocess_def
      activeModes_def drains_def exits_def)

subsection \<open>Order of notifications (C7)\<close>

lemma mset_counts:
  assumes "mset evs2 = mset evs1"
  shows "drains evs2 = drains evs1" "mset (exits evs2) = mset (exits evs1)"
proof -
  have "mset (filter (\<lambda>e. e = PipeDrained) evs2) = mset (filter (\<lambda>e. e = PipeDrained) evs1)"
    using assms by (metis mset_filter)
  then show "drains evs2 = drains evs1" unfolding drains_def by (metis size_mset)
  show "mset (exits evs2) = mset (exits evs1)" unfolding exits_def using assms by (metis mset_filter)
qed

text \<open>
  C7: for a started process manager with a fixed set of configured pipes, any two orders
  \<open>evs1\<close> and \<open>evs2\<close> of the same notifications (each pipe's drain notification once, one
  exit or signal notification \<open>e\<close>) end with the same observable result: the callback
  invoked once, with the tag and number of \<open>e\<close>, and the same terminal state and stored
  number.
\<close>

theorem C7_order_independent:
  assumes "start forkResult errno execFails token (Some cb) s0 = InParent s"
    and "pipeCount s0 = 0"
    and "drains evs1 = activeModes s0"
    and "exits evs1 = [e]"
    and "mset evs2 = mset evs1"
  shows "\<exists>s1 s2. run evs1 (s, []) = Inr (s1, [(cb, noticeOf e)]) \<and>
                 run evs2 (s, []) = Inr (s2, [(cb, noticeOf e)]) \<and>
                 state s1 = tagOf e \<and> state s2 = tagOf e \<and>
                 exitStatusOrSignalNumber s1 = valueOf e \<and> exitStatusOrSignalNumber s2 = valueOf e"
proof -
  have d2: "drains evs2 = activeModes s0" using mset_counts(1) [OF assms(5)] assms(3) by simp
  have "mset (exits evs2) = {#e#}" using mset_counts(2) [OF assms(5)] assms(4) by simp
  then have e2: "exits evs2 = [e]" by (metis mset_single_iff_right mset_zero_iff_right add_mset_eq_single mset.simps(2) list.exhaust)
  have p0: "progress (activeModes s0) cb [] (s, [])" by (rule start_progress [OF assms(1,2)])
  from run_progress [OF p0, of evs1] assms(3,4)
  obtain s1 l1 where r1: "run evs1 (s, []) = Inr (s1, l1)" "progress (activeModes s0) cb evs1 (s1, l1)"
    by auto
  from run_progress [OF p0, of evs2] d2 e2
  obtain s2 l2 where r2: "run evs2 (s, []) = Inr (s2, l2)" "progress (activeModes s0) cb evs2 (s2, l2)"
    by auto
  show ?thesis using r1 r2 assms(3,4) d2 e2 by (auto simp: progress_def)
qed


theorem C7_order_independent_witness:
  "\<exists>s1 s2.
     run [PipeDrained, ProcessSignaled 9]
       (parentBranch 3 (Some 4)
          ((fst (captureStdoutAndStderr 5 (new_Subprocess 0)))\<lparr>pid := 77\<rparr>), [])
       = Inr (s1, [(4, Signaled 9)]) \<and>
     run [ProcessSignaled 9, PipeDrained]
       (parentBranch 3 (Some 4)
          ((fst (captureStdoutAndStderr 5 (new_Subprocess 0)))\<lparr>pid := 77\<rparr>), [])
       = Inr (s2, [(4, Signaled 9)]) \<and>
     state s1 = SIGNALED \<and> state s2 = SIGNALED \<and>
     exitStatusOrSignalNumber s1 = 9 \<and> exitStatusOrSignalNumber s2 = 9"
  using C7_order_independent [of 77 0 "\<lambda>_. False" 3 4
      "fst (captureStdoutAndStderr 5 (new_Subprocess 0))"
      "parentBranch 3 (Some 4)
         ((fst (captureStdoutAndStderr 5 (new_Subprocess 0)))\<lparr>pid := 77\<rparr>)"
      "[PipeDrained, ProcessSignaled 9]" "ProcessSignaled 9"
      "[ProcessSignaled 9, PipeDrained]"]
  by (simp add: start_def captureStdoutAndStderr_def new_Subprocess_def
      activeModes_def drains_def exits_def)

subsection \<open>Argument assembly (C9)\<close>

lemma addArgument_fields:
  "args (addArgument arg s) = args s @ [arg]"
  "diskRefs (addArgument arg s) = diskRefs s"
  "args s \<noteq> [] \<Longrightarrow> executableName (addArgument arg s) = executableName s"
  "args s \<noteq> [] \<Longrightarrow> doPathLookup (addArgument arg s) = doPathLookup s"
  "args s = [] \<Longrightarrow> executableName (addArgument arg s) = arg"
  "args s = [] \<Longrightarrow> doPathLookup (addArgument arg s) = True"
  by (simp_all add: addArgument_def Let_def)

lemma addArgumentFile_fields:
  assumes "addArgumentFile getOnDisk file usage s = Inr s'"
  shows "\<exists>diskRef. getOnDisk file usage = Inr diskRef \<and>
           args s' = args s @ [path diskRef] \<and> diskRefs s' = diskRefs s @ [diskRef] \<and>
           executableName s' = (if args s = [] then path diskRef else executableName s) \<and>
           doPathLookup s' = (if args s = [] then False else doPathLookup s)"
  using assms by (auto simp: addArgumentFile_def Let_def split: sum.splits)

lemma addArg_fields:
  assumes "addArg getOnDisk a s = Inr s'"
  shows "args s' = args s @ [argString getOnDisk a] \<and>
         diskRefs s' = diskRefs s @ argRefs getOnDisk a \<and>
         executableName s' = (if args s = [] then argString getOnDisk a else executableName s) \<and>
         doPathLookup s' = (if args s = [] then isPlainText a else doPathLookup s)"
proof (cases a)
  case (PlainText arg)
  then show ?thesis using assms by (auto simp: addArgument_fields)
next
  case (FileBacked f us)
  then show ?thesis using assms addArgumentFile_fields [of getOnDisk f us s s'] by auto
qed

lemma addArgs_fields:
  "addArgs getOnDisk as s = Inr s' \<Longrightarrow>
     args s' = args s @ map (argString getOnDisk) as \<and>
     diskRefs s' = diskRefs s @ concat (map (argRefs getOnDisk) as) \<and>
     (args s \<noteq> [] \<longrightarrow> executableName s' = executableName s \<and> doPathLookup s' = doPathLookup s)"
proof (induction as arbitrary: s)
  case Nil
  then show ?case by simp
next
  case (Cons a as)
  then obtain s1 where s1: "addArg getOnDisk a s = Inr s1" "addArgs getOnDisk as s1 = Inr s'"
    by (auto split: sum.splits)
  from addArg_fields [OF s1(1)] Cons.IH [OF s1(2)] show ?case by auto
qed

text \<open>
  C9: after any non-empty sequence of argument calls on a fresh process manager (none of
  which failed to resolve its file), the executable locator is the first argument's string:
  the text itself when the first argument is plain text, with PATH lookup enabled, and the
  resolved on-disk path when it is file-backed, with PATH lookup disabled. The argument
  vector holds every argument's string in order, the owned list holds the disk reference
  of every file-backed argument, and the child branch of \<open>start\<close> calls \<^verbatim>\<open>execvp\<close> (PATH
  lookup) when the first argument was plain text and \<^verbatim>\<open>execv\<close> (exact path) when it was
  file-backed.
\<close>

theorem C9_first_argument_locator:
  assumes "addArgs getOnDisk (a # as) (new_Subprocess u) = Inr s"
  shows "executableName s = argString getOnDisk a \<and>
         doPathLookup s = isPlainText a \<and>
         args s = map (argString getOnDisk) (a # as) \<and>
         diskRefs s = concat (map (argRefs getOnDisk) (a # as)) \<and>
         childExec s =
           (if isPlainText a then Execvp (argString getOnDisk a) (map (argString getOnDisk) (a # as))
            else Execv (argString getOnDisk a) (map (argString getOnDisk) (a # as))) \<and>
         start 0 errno execFails token cbo s =
           InChild (childWiring s)
             (if execFails (childExec s) then ExitWithStatus 1 else BecameProgram (childExec s))"
proof -
  from assms obtain s1 where s1: "addArg getOnDisk a (new_Subprocess u) = Inr s1"
      "addArgs getOnDisk as s1 = Inr s"
    by (auto split: sum.splits)
  have a0: "args (new_Subprocess u) = []" "diskRefs (new_Subprocess u) = []"
    by (simp_all add: new_Subprocess_def)
  from addArg_fields [OF s1(1)] a0 have f1: "args s1 = [argString getOnDisk a]"
    "diskRefs s1 = argRefs getOnDisk a" "executableName s1 = argString getOnDisk a"
    "doPathLookup s1 = isPlainText a" by simp_all
  from addArgs_fields [OF s1(2)] f1 have f: "args s = map (argString getOnDisk) (a # as)"
    "diskRefs s = concat (map (argRefs getOnDisk) (a # as))"
    "executableName s = argString getOnDisk a" "doPathLookup s = isPlainText a" by simp_all
  have "start 0 errno execFails token cbo s =
           InChild (childWiring s)
             (if execFails (childExec s) then ExitWithStatus 1 else BecameProgram (childExec s))"
    by (simp add: start_def childBranch_def childWiring_def childExec_def)
  then show ?thesis using f by (simp add: childExec_def)
qed

theorem C9_first_argument_locator_witness:
  "childExec
     (addArgument ''-o'' (addArgument ''cc'' (new_Subprocess 0))) = Execvp ''cc'' [''cc'', ''-o''] \<and>
   (\<exists>s. addArgumentFile (\<lambda>f u. Inr (DiskRef f ''/tmp/tool'') :: unit + DiskRef) (7::nat) () (new_Subprocess 0) = Inr s \<and>
        childExec s = Execv ''/tmp/tool'' [''/tmp/tool''] \<and> diskRefs s = [DiskRef 7 ''/tmp/tool''])"
  using C9_first_argument_locator [of "\<lambda>f u. Inr (DiskRef f ''/tmp/tool'') :: unit + DiskRef"
      "PlainText ''cc'' :: (nat, unit) Argument" "[PlainText ''-o'']" 0
      "addArgument ''-o'' (addArgument ''cc'' (new_Subprocess 0))" 0 "\<lambda>_. False" 0 None]
    C9_first_argument_locator [of "\<lambda>f u. Inr (DiskRef f ''/tmp/tool'') :: unit + DiskRef"
      "FileBacked (7::nat) ()" "[]" 0
      "(new_Subprocess 0)\<lparr>executableName := ''/tmp/tool'', doPathLookup := False,
          args := [''/tmp/tool''], diskRefs := [DiskRef 7 ''/tmp/tool'']\<rparr>" 0 "\<lambda>_. False" 0 None]
  by (simp add: addArgumentFile_def addArgument_def new_Subprocess_def)

subsection \<open>Exec failure (C8)\<close>

text \<open>
  C8: when the exec call in the child branch fails, the child branch ends in \<^verbatim>\<open>exit(1)\<close>
  whatever the arguments, the lookup flag and the pipes are. With the operating system
  and the dispatcher as the spec describes them, that is a normal exit with code 1, the
  same termination as a target program that itself exits with status 1; and the parent,
  once every configured pipe has drained and that notification has arrived, has invoked
  the completion callback with the exited tag and the number 1 and stands in state
  \<open>EXITED\<close>, without tripping an assertion.
\<close>

theorem C8_exec_failure_exit_status:
  assumes "execFails (childExec s)"
    and "start forkResult errno execFails token (Some cb) s = InParent sp"
    and "pipeCount s = 0"
  shows "start 0 errno execFails token cbo s = InChild (childWiring s) (ExitWithStatus 1) \<and>
         childTermination program (ExitWithStatus 1) = Some (NormalExit 1) \<and>
         (\<forall>program'. program' (childExec s) = Some (NormalExit 1) \<longrightarrow>
            childTermination program' (BecameProgram (childExec s)) =
            childTermination program (ExitWithStatus 1)) \<and>
         (\<exists>s'. run (replicate (activeModes s) PipeDrained @ [exitNotification (NormalExit 1)])
                  (sp, []) = Inr (s', [(cb, Exited 1)]) \<and>
               state s' = EXITED \<and> exitStatusOrSignalNumber s' = 1)"
proof -
  let ?evs = "replicate (activeModes s) PipeDrained @ [exitNotification (NormalExit 1)]"
  have d: "drains ?evs = activeModes s" "exits ?evs = [ProcessExited 1]"
    by (simp_all add: drains_def exits_def)
  have c: "start 0 errno execFails token cbo s = InChild (childWiring s) (ExitWithStatus 1)"
    using assms(1)
    by (auto simp: start_def childBranch_def childWiring_def childExec_def Let_def
        split: if_splits)
  from run_progress [OF start_progress [OF assms(2,3)], of ?evs] d
  obtain s' log where r: "run ?evs (sp, []) = Inr (s', log)"
      "progress (activeModes s) cb ?evs (s', log)" by auto
  from r(2) d have "log = [(cb, Exited 1)]" "state s' = EXITED" "exitStatusOrSignalNumber s' = 1"
    by (simp_all add: progress_def)
  with r(1) c show ?thesis by simp
qed

theorem C8_exec_failure_exit_status_witness:
  "start 0 0 (\<lambda>call. call = Execv ''/no/such'' [''/no/such'']) 3 (Some 4)
     ((new_Subprocess 0)\<lparr>executableName := ''/no/such'', args := [''/no/such'']\<rparr>)
     = InChild [] (ExitWithStatus 1) \<and>
   (\<exists>s'. run [ProcessExited 1]
           (parentBranch 3 (Some 4)
              ((new_Subprocess 0)\<lparr>executableName := ''/no/such'', args := [''/no/such''],
                 pid := 77\<rparr>), [])
           = Inr (s', [(4, Exited 1)]) \<and>
         state s' = EXITED \<and> exitStatusOrSignalNumber s' = 1)"
  using C8_exec_failure_exit_status [of "\<lambda>call. call = Execv ''/no/such'' [''/no/such'']"
      "(new_Subprocess 0)\<lparr>executableName := ''/no/such'', args := [''/no/such'']\<rparr>"
      77 0 3 4
      "parentBranch 3 (Some 4)
         ((new_Subprocess 0)\<lparr>executableName := ''/no/such'', args := [''/no/such''],
            pid := 77\<rparr>)" "Some 4" "\<lambda>_. None"]
  by (simp add: start_def new_Subprocess_def childExec_def childWiring_def activeModes_def)

section \<open>Properties of the ownership library\<close>

subsection \<open>Releasing from containers (C5)\<close>

lemma held_simps [simp]:
  "held [] = []" "held (None # vec) = held vec" "held (Some a # vec) = a # held vec"
  "held (xs @ ys) = held xs @ held ys"
  by (simp_all add: held_def)

lemma set_held: "set (held vec) = {a. Some a \<in> set vec}"
proof (induction vec)
  case Nil
  show ?case by simp
next
  case (Cons x vec)
  then show ?case by (cases x) auto
qed

lemma delete_all: "foldl (\<lambda>l p. deleteEnsuringCompleteType p l) dl vec = dl @ held vec"
  by (induction vec arbitrary: dl) (auto simp: deleteEnsuringCompleteType_def split: option.splits)

lemma delete_all_map:
  "foldl (\<lambda>l kv. deleteEnsuringCompleteType (snd kv) l) dl m = dl @ held (map snd m)"
  by (induction m arbitrary: dl) (auto simp: deleteEnsuringCompleteType_def split: option.splits)

lemma queue_clear: "OwnedPtrQueue_clear q dl = ([], dl @ held q)"
  by (induction q arbitrary: dl) (auto simp: deleteEnsuringCompleteType_def split: option.splits)

lemma held_update_None:
  "i < length vec \<Longrightarrow> vec ! i = Some p \<Longrightarrow> distinct (held vec) \<Longrightarrow>
   set (held (vec[i := None])) = set (held vec) - {p}"
proof (induction vec arbitrary: i)
  case Nil
  then show ?case by simp
next
  case (Cons x vec)
  show ?case
  proof (cases i)
    case 0
    then show ?thesis using Cons.prems by auto
  next
    case (Suc j)
    have "Some p \<in> set vec" using Cons.prems(1,2) Suc by (metis Suc_less_eq length_Cons nth_Cons_Suc nth_mem)
    then have "p \<in> set (held vec)" by (simp add: set_held)
    then show ?thesis using Cons Suc by (cases x) auto
  qed
qed

lemma held_remove:
  "i < length vec \<Longrightarrow> vec ! i = Some p \<Longrightarrow> distinct (held vec) \<Longrightarrow>
   set (held (take i vec @ drop (Suc i) vec)) = set (held vec) - {p}"
proof -
  assume a: "i < length vec" "vec ! i = Some p" "distinct (held vec)"
  have "vec = take i vec @ Some p # drop (Suc i) vec"
    using a(1,2) by (metis id_take_nth_drop)
  then have "held vec = held (take i vec) @ p # held (drop (Suc i) vec)"
    by (metis held_simps(3,4))
  then show ?thesis using a(3) by auto
qed

lemma removed_at:
  assumes "i < length vec" "vec ! i = Some p" "distinct (held vec)"
  shows "length (take i vec @ drop (Suc i) vec) + 1 = length vec"
    and "p \<notin> set (held (take i vec @ drop (Suc i) vec))"
  using assms held_remove [OF assms] by auto

lemma butlast_as_remove: "vec \<noteq> [] \<Longrightarrow> butlast vec = take (length vec - 1) vec @ drop (Suc (length vec - 1)) vec"
  by (simp add: butlast_conv_take)

lemma tl_as_remove: "tl vec = take 0 vec @ drop (Suc 0) vec"
  by (simp add: drop_Suc)

lemma vector_release:
  assumes "i < length vec" "vec ! i = Some p" "distinct (held vec)"
  shows "\<exists>vec'. OwnedPtrVector_release (int i) vec = Inr (Some p, vec') \<and>
           length vec' = length vec \<and> vec' ! i = None \<and>
           p \<notin> set (OwnedPtrVector_destroy vec' []) \<and>
           p \<notin> set (snd (OwnedPtrVector_clear vec' []))"
  using assms held_update_None [OF assms]
  by (simp add: OwnedPtrVector_release_def inRange_def OwnedPtrVector_destroy_def
      OwnedPtrVector_clear_def delete_all)

lemma vector_releaseAndShift:
  assumes "i < length vec" "vec ! i = Some p" "distinct (held vec)"
  shows "\<exists>vec'. OwnedPtrVector_releaseAndShift (int i) vec = Inr (Some p, vec') \<and>
           length vec' + 1 = length vec \<and>
           p \<notin> set (OwnedPtrVector_destroy vec' []) \<and>
           p \<notin> set (snd (OwnedPtrVector_clear vec' []))"
  using assms removed_at [OF assms]
  by (simp add: OwnedPtrVector_releaseAndShift_def inRange_def OwnedPtrVector_destroy_def
      OwnedPtrVector_clear_def delete_all)

lemma vector_releaseBack:
  assumes "i < length vec" "vec ! i = Some p" "distinct (held vec)" "Suc i = length vec"
  shows "\<exists>vec'. OwnedPtrVector_releaseBack vec = Inr (Some p, vec') \<and>
           length vec' + 1 = length vec \<and>
           p \<notin> set (OwnedPtrVector_destroy vec' []) \<and>
           p \<notin> set (snd (OwnedPtrVector_clear vec' []))"
proof -
  have ne: "vec \<noteq> []" using assms(1) by auto
  have i: "i = length vec - 1" using assms(4) by simp
  have l: "last vec = Some p" using assms(2) ne i by (simp add: last_conv_nth)
  have "p \<notin> set (held (butlast vec))"
    using removed_at(2) [OF assms(1-3)] butlast_as_remove [OF ne] i by simp
  then show ?thesis using ne l
    by (simp add: OwnedPtrVector_releaseBack_def OwnedPtrVector_destroy_def
        OwnedPtrVector_clear_def delete_all)
qed

lemma deque_popFront:
  assumes "0 < length q" "q ! 0 = Some p" "distinct (held q)"
  shows "\<exists>q'. OwnedPtrDeque_popFront q = Inr (Some p, q') \<and>
           length q' + 1 = length q \<and>
           p \<notin> set (OwnedPtrDeque_destroy q' []) \<and>
           p \<notin> set (snd (OwnedPtrDeque_clear q' []))"
  using assms
  by (cases q) (auto simp: OwnedPtrDeque_popFront_def OwnedPtrDeque_destroy_def
      OwnedPtrDeque_clear_def delete_all)

lemma deque_popBack:
  assumes "i < length q" "q ! i = Some p" "distinct (held q)" "Suc i = length q"
  shows "\<exists>q'. OwnedPtrDeque_popBack q = Inr (Some p, q') \<and>
           length q' + 1 = length q \<and>
           p \<notin> set (OwnedPtrDeque_destroy q' []) \<and>
           p \<notin> set (snd (OwnedPtrDeque_clear q' []))"
proof -
  have ne: "q \<noteq> []" using assms(1) by auto
  have i: "i = length q - 1" using assms(4) by simp
  have l: "last q = Some p" using assms(2) ne i by (simp add: last_conv_nth)
  have "p \<notin> set (held (butlast q))"
    using removed_at(2) [OF assms(1-3)] butlast_as_remove [OF ne] i by simp
  then show ?thesis using ne l
    by (simp add: OwnedPtrDeque_popBack_def OwnedPtrDeque_destroy_def
        OwnedPtrDeque_clear_def delete_all)
qed

lemma deque_releaseAndShift:
  assumes "i < length q" "q ! i = Some p" "distinct (held q)"
  shows "\<exists>q'. OwnedPtrDeque_releaseAndShift (int i) q = Inr (Some p, q') \<and>
           length q' + 1 = length q \<and>
           p \<notin> set (OwnedPtrDeque_destroy q' []) \<and>
           p \<notin> set (snd (OwnedPtrDeque_clear q' []))"
  using assms removed_at [OF assms]
  by (simp add: OwnedPtrDeque_releaseAndShift_def inRange_def OwnedPtrDeque_destroy_def
      OwnedPtrDeque_clear_def delete_all)

lemma queue_pop:
  assumes "0 < length q" "q ! 0 = Some p" "distinct (held q)"
  shows "\<exists>q'. OwnedPtrQueue_pop q = Inr (Some p, q') \<and>
           length q' + 1 = length q \<and>
           p \<notin> set (OwnedPtrQueue_destroy q' []) \<and>
           p \<notin> set (snd (OwnedPtrQueue_clear q' []))"
  using assms
  by (cases q) (auto simp: OwnedPtrQueue_pop_def OwnedPtrQueue_destroy_def queue_clear)

lemma held_erase:
  "map_of m key = Some (Some p) \<Longrightarrow> distinct (map fst m) \<Longrightarrow> distinct (held (map snd m)) \<Longrightarrow>
   p \<notin> set (held (map snd (InnerMap_erase key m))) \<and>
   length (InnerMap_erase key m) + 1 = length m \<and> map_of (InnerMap_erase key m) key = None"
proof (induction m)
  case Nil
  then show ?case by simp
next
  case (Cons kv m)
  obtain k v where kv: "kv = (k, v)" by (cases kv)
  show ?case
  proof (cases "k = key")
    case True
    then have v: "v = Some p" using Cons.prems(1) kv by simp
    have "key \<notin> fst ` set m" using Cons.prems(2) kv True by simp
    then have "InnerMap_erase key m = m"
      unfolding InnerMap_erase_def by (induction m) auto
    then show ?thesis using kv True v Cons.prems(3) \<open>key \<notin> fst ` set m\<close>
      by (simp add: InnerMap_erase_def map_of_eq_None_iff)
  next
    case False
    then have m: "map_of m key = Some (Some p)" using Cons.prems(1) kv by simp
    have d: "distinct (map fst m)" using Cons.prems(2) by simp
    have h: "distinct (held (map snd m))" using Cons.prems(3) kv by (cases v) simp_all
    from Cons.IH [OF m d h] have ih: "p \<notin> set (held (map snd (InnerMap_erase key m)))"
      "length (InnerMap_erase key m) + 1 = length m" "map_of (InnerMap_erase key m) key = None"
      by simp_all
    have "Some p \<in> set (map snd m)" using m by (metis map_of_SomeD image_eqI snd_conv set_map)
    then have "p \<in> set (held (map snd m))" by (simp add: set_held)
    then have "v \<noteq> Some p" using Cons.prems(3) kv by (cases v) auto
    then show ?thesis using ih kv False by (cases v) (auto simp: InnerMap_erase_def)
  qed
qed

lemma map_release:
  assumes "map_of m key = Some (Some p)" "distinct (map fst m)" "distinct (held (map snd m))"
  shows "\<exists>m'. OwnedPtrMap_release key None m [] = (True, Some p, m', []) \<and>
           length m' + 1 = length m \<and> map_of m' key = None \<and>
           p \<notin> set (OwnedPtrMap_destroy m' []) \<and>
           p \<notin> set (snd (OwnedPtrMap_clear m' []))"
proof -
  have "OwnedPtrMap_release key None m [] = (True, Some p, InnerMap_erase key m, [])"
    using assms(1)
    by (simp add: OwnedPtrMap_release_def OwnedPtr_reset_def deleteEnsuringCompleteType_def)
  then show ?thesis using held_erase [OF assms]
    by (simp add: OwnedPtrMap_destroy_def OwnedPtrMap_clear_def delete_all_map)
qed

text \<open>
  C5, as stated: every release-family operation removes the slot from the container. It
  fails for \<^verbatim>\<open>OwnedPtrVector::release(index)\<close>, which writes \<^verbatim>\<open>NULL\<close> into the slot and leaves
  it in place: the vector is as long as before.
\<close>

theorem C5_counterexample:
  "\<exists>vec'. OwnedPtrVector_release 0 [Some 7] = Inr (Some 7, vec') \<and> length vec' = length [Some (7::nat)]"
  by (simp add: OwnedPtrVector_release_def inRange_def)

text \<open>
  C5, amended: a container owns each of its objects once and holds the object \<open>p\<close> (a
  sequence container in slot \<open>i\<close>, a map under \<open>key\<close>). Then every release-family operation
  addressing that element returns an exclusive handle to \<open>p\<close>, and neither destroying nor
  clearing the container afterwards deletes \<open>p\<close>. \<^verbatim>\<open>releaseAndShift\<close>, \<^verbatim>\<open>releaseBack\<close>,
  \<^verbatim>\<open>popFront\<close>, \<^verbatim>\<open>popBack\<close>, the queue's \<^verbatim>\<open>pop\<close> and the map's \<^verbatim>\<open>release\<close> remove the
  slot or entry (the container is one shorter, the key is gone); the vector's
  \<^verbatim>\<open>release(index)\<close> keeps the slot and leaves it empty.
\<close>

theorem C5_release_transfers_ownership:
  assumes "i < length vec" "vec ! i = Some p" "distinct (held vec)"
    and "map_of m key = Some (Some p)" "distinct (map fst m)" "distinct (held (map snd m))"
  shows
    "(\<exists>vec'. OwnedPtrVector_release (int i) vec = Inr (Some p, vec') \<and>
        length vec' = length vec \<and> vec' ! i = None \<and>
        p \<notin> set (OwnedPtrVector_destroy vec' []) \<and> p \<notin> set (snd (OwnedPtrVector_clear vec' []))) \<and>
     (\<exists>vec'. OwnedPtrVector_releaseAndShift (int i) vec = Inr (Some p, vec') \<and>
        length vec' + 1 = length vec \<and>
        p \<notin> set (OwnedPtrVector_destroy vec' []) \<and> p \<notin> set (snd (OwnedPtrVector_clear vec' []))) \<and>
     (Suc i = length vec \<longrightarrow>
        (\<exists>vec'. OwnedPtrVector_releaseBack vec = Inr (Some p, vec') \<and>
           length vec' + 1 = length vec \<and>
           p \<notin> set (OwnedPtrVector_destroy vec' []) \<and> p \<notin> set (snd (OwnedPtrVector_clear vec' [])))) \<and>
     (i = 0 \<longrightarrow>
        (\<exists>q'. OwnedPtrDeque_popFront vec = Inr (Some p, q') \<and>
           length q' + 1 = length vec \<and>
           p \<notin> set (OwnedPtrDeque_destroy q' []) \<and> p \<notin> set (snd (OwnedPtrDeque_clear q' [])))) \<and>
     (Suc i = length vec \<longrightarrow>
        (\<exists>q'. OwnedPtrDeque_popBack vec = Inr (Some p, q') \<and>
           length q' + 1 = length vec \<and>
           p \<notin> set (OwnedPtrDeque_destroy q' []) \<and> p \<notin> set (snd (OwnedPtrDeque_clear q' [])))) \<and>
     (\<exists>q'. OwnedPtrDeque_releaseAndShift (int i) vec = Inr (Some p, q') \<and>
        length q' + 1 = length vec \<and>
        p \<notin> set (OwnedPtrDeque_destroy q' []) \<and> p \<notin> set (snd (OwnedPtrDeque_clear q' []))) \<and>
     (i = 0 \<longrightarrow>
        (\<exists>q'. OwnedPtrQueue_pop vec = Inr (Some p, q') \<and>
           length q' + 1 = length vec \<and>
           p \<notin> set (OwnedPtrQueue_destroy q' []) \<and> p \<notin> set (snd (OwnedPtrQueue_clear q' [])))) \<and>
     (\<exists>m'. OwnedPtrMap_release key None m [] = (True, Some p, m', []) \<and>
        length m' + 1 = length m \<and> map_of m' key = None \<and>
        p \<notin> set (OwnedPtrMap_destroy m' []) \<and> p \<notin> set (snd (OwnedPtrMap_clear m' [])))"
proof (intro conjI impI)
  show "\<exists>vec'. OwnedPtrVector_release (int i) vec = Inr (Some p, vec') \<and>
        length vec' = length vec \<and> vec' ! i = None \<and>
        p \<notin> set (OwnedPtrVector_destroy vec' []) \<and> p \<notin> set (snd (OwnedPtrVector_clear vec' []))"
    by (rule vector_release [OF assms(1-3)])
  show "\<exists>vec'. OwnedPtrVector_releaseAndShift (int i) vec = Inr (Some p, vec') \<and>
        length vec' + 1 = length vec \<and>
        p \<notin> set (OwnedPtrVector_destroy vec' []) \<and> p \<notin> set (snd (OwnedPtrVector_clear vec' []))"
    by (rule vector_releaseAndShift [OF assms(1-3)])
  show "\<exists>q'. OwnedPtrDeque_releaseAndShift (int i) vec = Inr (Some p, q') \<and>
        length q' + 1 = length vec \<and>
        p \<notin> set (OwnedPtrDeque_destroy q' []) \<and> p \<notin> set (snd (OwnedPtrDeque_clear q' []))"
    by (rule deque_releaseAndShift [OF assms(1-3)])
  show "\<exists>m'. OwnedPtrMap_release key None m [] = (True, Some p, m', []) \<and>
        length m' + 1 = length m \<and> map_of m' key = None \<and>
        p \<notin> set (OwnedPtrMap_destroy m' []) \<and> p \<notin> set (snd (OwnedPtrMap_clear m' []))"
    by (rule map_release [OF assms(4-6)])
next
  assume "Suc i = length vec"
  then show "\<exists>vec'. OwnedPtrVector_releaseBack vec = Inr (Some p, vec') \<and>
           length vec' + 1 = length vec \<and>
           p \<notin> set (OwnedPtrVector_destroy vec' []) \<and> p \<notin> set (snd (OwnedPtrVector_clear vec' []))"
    by (rule vector_releaseBack [OF assms(1-3)])
next
  assume "Suc i = length vec"
  then show "\<exists>q'. OwnedPtrDeque_popBack vec = Inr (Some p, q') \<and>
           length q' + 1 = length vec \<and>
           p \<notin> set (OwnedPtrDeque_destroy q' []) \<and> p \<notin> set (snd (OwnedPtrDeque_clear q' []))"
    by (rule deque_popBack [OF assms(1-3)])
next
  assume "i = 0"
  then show "\<exists>q'. OwnedPtrDeque_popFront vec = Inr (Some p, q') \<and>
           length q' + 1 = length vec \<and>
           p \<notin> set (OwnedPtrDeque_destroy q' []) \<and> p \<notin> set (snd (OwnedPtrDeque_clear q' []))"
    using deque_popFront [of vec p] assms(1-3) by simp
next
  assume "i = 0"
  then show "\<exists>q'. OwnedPtrQueue_pop vec = Inr (Some p, q') \<and>
           length q' + 1 = length vec \<and>
           p \<notin> set (OwnedPtrQueue_destroy q' []) \<and> p \<notin> set (snd (OwnedPtrQueue_clear q' []))"
    using queue_pop [of vec p] assms(1-3) by simp
qed

theorem C5_release_transfers_ownership_witness:
  "(\<exists>vec'. OwnedPtrVector_release 0 [Some 1] = Inr (Some 1, vec') \<and>
        length vec' = 1 \<and> vec' ! 0 = None \<and> 1 \<notin> set (OwnedPtrVector_destroy vec' [])) \<and>
   (\<exists>vec'. OwnedPtrVector_releaseBack [Some 1] = Inr (Some 1, vec') \<and>
        length vec' = 0 \<and> 1 \<notin> set (OwnedPtrVector_destroy vec' [])) \<and>
   (\<exists>m'. OwnedPtrMap_release (5::nat) None [(5, Some 1)] [] = (True, Some 1, m', []) \<and>
        length m' = 0 \<and> 1 \<notin> set (OwnedPtrMap_destroy m' []))"
  using C5_release_transfers_ownership [of 0 "[Some 1]" 1 "[(5::nat, Some 1)]" 5]
  by (simp add: held_def OwnedPtrVector_release_def inRange_def OwnedPtrVector_destroy_def
      OwnedPtrVector_releaseBack_def OwnedPtrMap_release_def OwnedPtrMap_destroy_def
      OwnedPtr_reset_def InnerMap_erase_def deleteEnsuringCompleteType_def)

subsection \<open>Insert only if absent (C10)\<close>

text \<open>
  C10: \<^verbatim>\<open>addIfNew\<close> with a key that is present returns false, leaves the map as it was
  and deletes the offered object; with a key that is absent it returns true and the map
  holds the object. Either way the handle passed in ends empty: the caller keeps nothing.
\<close>

theorem C10_addIfNew_present:
  "(map_of m key = Some v \<longrightarrow>
      OwnedPtrMap_addIfNew key (Some a) m dl = (False, m, dl @ [a], None)) \<and>
   (map_of m key = None \<longrightarrow>
      OwnedPtrMap_addIfNew key (Some a) m dl = (True, m @ [(key, Some a)], dl, None))"
  by (simp add: OwnedPtrMap_addIfNew_def OwnedPtr_releaseRaw_def InnerMap_insert_def
      OwnedPtr_destroy_def deleteEnsuringCompleteType_def)

theorem C10_addIfNew_present_witness:
  "OwnedPtrMap_addIfNew (5::nat) (Some 2) [(5, Some 1)] [] = (False, [(5, Some 1)], [2], None) \<and>
   OwnedPtrMap_addIfNew (6::nat) (Some 2) [(5, Some 1)] [] = (True, [(5, Some 1), (6, Some 2)], [], None)"
  using C10_addIfNew_present [of "[(5::nat, Some 1)]" 5 "Some 1" 2 "[]"]
    C10_addIfNew_present [of "[(5::nat, Some 1)]" 6 "Some 1" 2 "[]"]
  by simp

subsection \<open>The invariant of the reference counts\<close>

lemma heapOk_cong:
  "blocks s' = blocks s \<Longrightarrow> nextBlock s' = nextBlock s \<Longrightarrow> freed s' = freed s \<Longrightarrow>
   heapOk s' = heapOk s \<and> strongOf s' = strongOf s \<and> weakOf s' = weakOf s"
  by (simp add: heapOk_def strongOf_def weakOf_def fun_eq_iff)

lemma heapOk_allocated:
  "heapOk s \<Longrightarrow> (blocks s r \<noteq> None) = (0 < strongOf s r \<or> 0 < weakOf s r)"
  unfolding heapOk_def strongOf_def weakOf_def by (cases "blocks s r") auto

lemma heapOk_nonneg: "heapOk s \<Longrightarrow> blocks s a = Some rc \<Longrightarrow> 0 \<le> strong rc \<and> 0 \<le> weak rc"
  unfolding heapOk_def by blast

lemma heapOk_lt: "heapOk s \<Longrightarrow> blocks s a = Some rc \<Longrightarrow> a < nextBlock s"
  unfolding heapOk_def by (metis not_le_imp_less option.distinct(1))

lemma heapOkI:
  assumes "\<And>r rc. blocks s r = Some rc \<Longrightarrow>
             0 \<le> strong rc \<and> 0 \<le> weak rc \<and> (0 < strong rc \<or> 0 < weak rc)"
    and "\<And>r. nextBlock s \<le> r \<Longrightarrow> blocks s r = None"
    and "\<And>x. x \<in> set (freed s) \<Longrightarrow> strong (snd x) = 0 \<and> weak (snd x) = 0"
  shows "heapOk s"
  unfolding heapOk_def using assms by blast

lemma heapOk_freedD: "heapOk s \<Longrightarrow> x \<in> set (freed s) \<Longrightarrow> strong (snd x) = 0 \<and> weak (snd x) = 0"
  unfolding heapOk_def by blast

lemma heapOk_freshD: "heapOk s \<Longrightarrow> nextBlock s \<le> r \<Longrightarrow> blocks s r = None"
  unfolding heapOk_def by blast

lemma heapOk_blockD:
  "heapOk s \<Longrightarrow> blocks s r = Some rc \<Longrightarrow>
   0 \<le> strong rc \<and> 0 \<le> weak rc \<and> (0 < strong rc \<or> 0 < weak rc)"
  unfolding heapOk_def by blast

lemma heapOk_upd:
  assumes "heapOk s" "0 \<le> strong rc'" "0 \<le> weak rc'" "0 < strong rc' \<or> 0 < weak rc'"
    "blocks s a = Some rc0"
  shows "heapOk (s\<lparr>blocks := (blocks s)(a \<mapsto> rc')\<rparr>)"
proof (rule heapOkI)
  fix r rc assume "blocks (s\<lparr>blocks := (blocks s)(a \<mapsto> rc')\<rparr>) r = Some rc"
  then have "(r = a \<and> rc = rc') \<or> blocks s r = Some rc" by (auto split: if_splits)
  then show "0 \<le> strong rc \<and> 0 \<le> weak rc \<and> (0 < strong rc \<or> 0 < weak rc)"
    using assms(2-4) heapOk_blockD [OF assms(1)] by blast
next
  fix r assume "nextBlock (s\<lparr>blocks := (blocks s)(a \<mapsto> rc')\<rparr>) \<le> r"
  then have "nextBlock s \<le> r" by simp
  moreover have "a < nextBlock s" by (rule heapOk_lt [OF assms(1,5)])
  ultimately show "blocks (s\<lparr>blocks := (blocks s)(a \<mapsto> rc')\<rparr>) r = None"
    using heapOk_freshD [OF assms(1)] by simp
next
  fix x assume "x \<in> set (freed (s\<lparr>blocks := (blocks s)(a \<mapsto> rc')\<rparr>))"
  then show "strong (snd x) = 0 \<and> weak (snd x) = 0" using heapOk_freedD [OF assms(1)] by simp
qed

lemma heapOk_free:
  assumes "heapOk s" "strong rc' = 0" "weak rc' = 0"
  shows "heapOk (s\<lparr>blocks := (blocks s)(a := None), freed := freed s @ [(a, rc')]\<rparr>)"
proof (rule heapOkI)
  fix r rc
  assume "blocks (s\<lparr>blocks := (blocks s)(a := None), freed := freed s @ [(a, rc')]\<rparr>) r = Some rc"
  then have "blocks s r = Some rc" by (auto split: if_splits)
  then show "0 \<le> strong rc \<and> 0 \<le> weak rc \<and> (0 < strong rc \<or> 0 < weak rc)"
    by (rule heapOk_blockD [OF assms(1)])
next
  fix r
  assume "nextBlock (s\<lparr>blocks := (blocks s)(a := None), freed := freed s @ [(a, rc')]\<rparr>) \<le> r"
  then show "blocks (s\<lparr>blocks := (blocks s)(a := None), freed := freed s @ [(a, rc')]\<rparr>) r = None"
    using heapOk_freshD [OF assms(1)] by simp
next
  fix x
  assume "x \<in> set (freed (s\<lparr>blocks := (blocks s)(a := None), freed := freed s @ [(a, rc')]\<rparr>))"
  then have "x \<in> set (freed s) \<or> x = (a, rc')" by auto
  then show "strong (snd x) = 0 \<and> weak (snd x) = 0"
  proof
    assume "x \<in> set (freed s)"
    then show ?thesis by (rule heapOk_freedD [OF assms(1)])
  next
    assume "x = (a, rc')"
    then show ?thesis using assms(2,3) by simp
  qed
qed

lemma Refcount_inc_ok:
  assumes "heapOk s" "r = None \<or> (\<exists>a. r = Some a \<and> (0 < strongOf s a \<or> 0 < weakOf s a))"
  shows "\<exists>s'. Refcount_inc r s = Inr s' \<and> heapOk s' \<and> frame s s' \<and>
           strongOf s' = bump r 1 (strongOf s) \<and> weakOf s' = weakOf s \<and>
           nextBlock s' = nextBlock s"
proof (cases r)
  case None
  then show ?thesis using assms(1) by (simp add: Refcount_inc_def frame_def bump_def)
next
  case (Some a)
  then obtain rc where rc: "blocks s a = Some rc" using assms
    by (auto simp: strongOf_def weakOf_def split: option.splits)
  let ?s' = "s\<lparr>blocks := (blocks s)(a \<mapsto> rc\<lparr>strong := strong rc + 1\<rparr>)\<rparr>"
  have 1: "Refcount_inc r s = Inr ?s'" using Some rc by (simp add: Refcount_inc_def)
  have 2: "strongOf ?s' = bump r 1 (strongOf s)" "weakOf ?s' = weakOf s"
    using Some rc by (auto simp: strongOf_def weakOf_def bump_def fun_eq_iff)
  have nn: "0 \<le> strong rc \<and> 0 \<le> weak rc" by (rule heapOk_nonneg [OF assms(1) rc])
  have 3: "heapOk ?s'" by (rule heapOk_upd [OF assms(1) _ _ _ rc]) (use nn in auto)
  show ?thesis using 1 2 3 by (simp add: frame_def)
qed

lemma Refcount_dec_ok:
  assumes "heapOk s" "r = None \<or> (\<exists>a. r = Some a \<and> 0 < strongOf s a)"
  shows "\<exists>b s'. Refcount_dec r s = Inr (b, s') \<and> heapOk s' \<and> frame s s' \<and>
           strongOf s' = bump r (- 1) (strongOf s) \<and> weakOf s' = weakOf s \<and>
           nextBlock s' = nextBlock s \<and> b = (\<exists>a. r = Some a \<and> strongOf s' a = 0)"
proof (cases r)
  case None
  then show ?thesis using assms(1)
    by (intro exI [of _ False] exI [of _ s]) (simp add: Refcount_dec_def frame_def bump_def)
next
  case (Some a)
  then obtain rc where rc: "blocks s a = Some rc" "0 < strong rc" using assms
    by (auto simp: strongOf_def split: option.splits)
  have nn: "0 \<le> strong rc \<and> 0 \<le> weak rc" by (rule heapOk_nonneg [OF assms(1) rc(1)])
  let ?rc = "rc\<lparr>strong := strong rc - 1\<rparr>"
  show ?thesis
  proof (cases "strong rc = 1 \<and> weak rc = 0")
    case True
    let ?s' = "s\<lparr>blocks := (blocks s)(a := None), freed := freed s @ [(a, ?rc)]\<rparr>"
    have 1: "Refcount_dec r s = Inr (True, ?s')"
      using Some rc True by (simp add: Refcount_dec_def Let_def)
    have 2: "strongOf ?s' = bump r (- 1) (strongOf s)" "weakOf ?s' = weakOf s"
      using Some rc True by (auto simp: strongOf_def weakOf_def bump_def fun_eq_iff)
    have 3: "heapOk ?s'" by (rule heapOk_free [OF assms(1)]) (use True in auto)
    have 4: "strongOf ?s' a = 0" by (simp add: strongOf_def)
    show ?thesis using 1 2 3 4 Some
      by (intro exI [of _ True] exI [of _ ?s']) (simp add: frame_def)
  next
    case False
    let ?s' = "s\<lparr>blocks := (blocks s)(a \<mapsto> ?rc)\<rparr>"
    have 1: "Refcount_dec r s = Inr (strong rc = 1, ?s')"
      using Some rc False by (auto simp: Refcount_dec_def Let_def)
    have 2: "strongOf ?s' = bump r (- 1) (strongOf s)" "weakOf ?s' = weakOf s"
      using Some rc by (auto simp: strongOf_def weakOf_def bump_def fun_eq_iff)
    have 3: "heapOk ?s'" by (rule heapOk_upd [OF assms(1) _ _ _ rc(1)]) (use nn rc False in auto)
    have 4: "(strongOf ?s' a = 0) = (strong rc = 1)" by (auto simp: strongOf_def)
    show ?thesis using 1 2 3 4 Some
      by (intro exI [of _ "strong rc = 1"] exI [of _ ?s']) (simp add: frame_def)
  qed
qed

lemma Refcount_incWeak_ok:
  assumes "heapOk s" "r = None \<or> (\<exists>a. r = Some a \<and> (0 < strongOf s a \<or> 0 < weakOf s a))"
  shows "\<exists>s'. Refcount_incWeak r s = Inr s' \<and> heapOk s' \<and> frame s s' \<and>
           weakOf s' = bump r 1 (weakOf s) \<and> strongOf s' = strongOf s \<and>
           nextBlock s' = nextBlock s"
proof (cases r)
  case None
  then show ?thesis using assms(1) by (simp add: Refcount_incWeak_def frame_def bump_def)
next
  case (Some a)
  then obtain rc where rc: "blocks s a = Some rc" using assms
    by (auto simp: strongOf_def weakOf_def split: option.splits)
  let ?s' = "s\<lparr>blocks := (blocks s)(a \<mapsto> rc\<lparr>weak := weak rc + 1\<rparr>)\<rparr>"
  have 1: "Refcount_incWeak r s = Inr ?s'" using Some rc by (simp add: Refcount_incWeak_def)
  have 2: "weakOf ?s' = bump r 1 (weakOf s)" "strongOf ?s' = strongOf s"
    using Some rc by (auto simp: strongOf_def weakOf_def bump_def fun_eq_iff)
  have nn: "0 \<le> strong rc \<and> 0 \<le> weak rc" by (rule heapOk_nonneg [OF assms(1) rc])
  have 3: "heapOk ?s'" by (rule heapOk_upd [OF assms(1) _ _ _ rc]) (use nn in auto)
  show ?thesis using 1 2 3 by (simp add: frame_def)
qed

lemma Refcount_decWeak_ok:
  assumes "heapOk s" "r = None \<or> (\<exists>a. r = Some a \<and> 0 < weakOf s a)"
  shows "\<exists>s'. Refcount_decWeak r s = Inr s' \<and> heapOk s' \<and> frame s s' \<and>
           weakOf s' = bump r (- 1) (weakOf s) \<and> strongOf s' = strongOf s \<and>
           nextBlock s' = nextBlock s"
proof (cases r)
  case None
  then show ?thesis using assms(1) by (simp add: Refcount_decWeak_def frame_def bump_def)
next
  case (Some a)
  then obtain rc where rc: "blocks s a = Some rc" "0 < weak rc" using assms
    by (auto simp: weakOf_def split: option.splits)
  have nn: "0 \<le> strong rc \<and> 0 \<le> weak rc" by (rule heapOk_nonneg [OF assms(1) rc(1)])
  let ?rc = "rc\<lparr>weak := weak rc - 1\<rparr>"
  show ?thesis
  proof (cases "weak rc = 1 \<and> strong rc = 0")
    case True
    let ?s' = "s\<lparr>blocks := (blocks s)(a := None), freed := freed s @ [(a, ?rc)]\<rparr>"
    have 1: "Refcount_decWeak r s = Inr ?s'"
      using Some rc True by (simp add: Refcount_decWeak_def Let_def)
    have 2: "weakOf ?s' = bump r (- 1) (weakOf s)" "strongOf ?s' = strongOf s"
      using Some rc True by (auto simp: strongOf_def weakOf_def bump_def fun_eq_iff)
    have 3: "heapOk ?s'" by (rule heapOk_free [OF assms(1)]) (use True in auto)
    show ?thesis using 1 2 3 by (simp add: frame_def)
  next
    case False
    let ?s' = "s\<lparr>blocks := (blocks s)(a \<mapsto> ?rc)\<rparr>"
    have 1: "Refcount_decWeak r s = Inr ?s'"
      using Some rc False by (auto simp: Refcount_decWeak_def Let_def)
    have 2: "weakOf ?s' = bump r (- 1) (weakOf s)" "strongOf ?s' = strongOf s"
      using Some rc by (auto simp: strongOf_def weakOf_def bump_def fun_eq_iff)
    have 3: "heapOk ?s'" by (rule heapOk_upd [OF assms(1) _ _ _ rc(1)]) (use nn rc False in auto)
    show ?thesis using 1 2 3 by (simp add: frame_def)
  qed
qed

lemma Refcount_new_ok:
  assumes "heapOk s"
  shows "\<exists>s'. Refcount_new s = (nextBlock s, s') \<and> heapOk s' \<and> frame s s' \<and>
           strongOf s' = (strongOf s)(nextBlock s := 1) \<and> weakOf s' = weakOf s \<and>
           nextBlock s' = Suc (nextBlock s) \<and>
           strongOf s (nextBlock s) = 0 \<and> weakOf s (nextBlock s) = 0"
proof -
  let ?a = "nextBlock s"
  let ?s' = "s\<lparr>blocks := (blocks s)(?a \<mapsto> \<lparr>strong = 1, weak = 0\<rparr>), nextBlock := Suc ?a\<rparr>"
  have n: "blocks s ?a = None" using assms unfolding heapOk_def by simp
  have 1: "Refcount_new s = (?a, ?s')" by (simp add: Refcount_new_def)
  have 2: "strongOf ?s' = (strongOf s)(?a := 1)" "weakOf ?s' = weakOf s"
    "strongOf s ?a = 0" "weakOf s ?a = 0"
    using n by (auto simp: strongOf_def weakOf_def fun_eq_iff)
  have 3: "heapOk ?s'"
  proof (rule heapOkI)
    fix r rc assume "blocks ?s' r = Some rc"
    then have "(r = ?a \<and> rc = \<lparr>strong = 1, weak = 0\<rparr>) \<or> blocks s r = Some rc"
      by (auto split: if_splits)
    then show "0 \<le> strong rc \<and> 0 \<le> weak rc \<and> (0 < strong rc \<or> 0 < weak rc)"
      using heapOk_blockD [OF assms] by auto
  next
    fix r assume "nextBlock ?s' \<le> r"
    then show "blocks ?s' r = None" using heapOk_freshD [OF assms] by simp
  next
    fix x assume "x \<in> set (freed ?s')"
    then show "strong (snd x) = 0 \<and> weak (snd x) = 0" using heapOk_freedD [OF assms] by simp
  qed
  show ?thesis using 1 2 3 by (simp add: frame_def)
qed

lemma refOf_simps [simp]: "refOf None = None" "refOf (Some cur) = refcount cur"
  by (simp_all add: refOf_def)

lemma refs_set_finite:
  assumes "finite (dom t)"
  shows "finite {h. refOf (t h) = Some r}"
proof (rule finite_subset [OF _ assms])
  show "{h. refOf (t h) = Some r} \<subseteq> dom t"
  proof
    fix h assume "h \<in> {h. refOf (t h) = Some r}"
    then have "t h \<noteq> None" by (cases "t h") simp_all
    then show "h \<in> dom t" by (simp add: dom_def)
  qed
qed

lemma card_remove_int:
  assumes "finite A"
  shows "int (card (A - {h})) = int (card A) - (if h \<in> A then 1 else 0)"
proof (cases "h \<in> A")
  case True
  have "card A = Suc (card (A - {h}))" by (rule card.remove [OF assms True])
  then show ?thesis using True by simp
next
  case False
  then show ?thesis by simp
qed

lemma refs_upd_gen:
  assumes "finite (dom t)"
  shows "int (refs (t(h := x)) r) =
         int (refs t r) - (if refOf (t h) = Some r then 1 else 0)
           + (if refOf x = Some r then 1 else 0)"
proof -
  let ?A = "{k. refOf (t k) = Some r}"
  have fin: "finite ?A" by (rule refs_set_finite [OF assms])
  have eq: "{k. refOf ((t(h := x)) k) = Some r} =
        (if refOf x = Some r then insert h (?A - {h}) else ?A - {h})"
    by auto
  have c: "int (card (?A - {h})) = int (card ?A) - (if h \<in> ?A then 1 else 0)"
    by (rule card_remove_int [OF fin])
  show ?thesis
  proof (cases "refOf x = Some r")
    case True
    have "card (insert h ?A) = Suc (card (?A - {h}))"
      by (rule card.insert_remove [OF fin])
    then show ?thesis unfolding refs_def eq using c True by simp
  next
    case False
    then show ?thesis unfolding refs_def eq using c by simp
  qed
qed

lemma refs_pos:
  assumes "finite (dom t)" "t h = Some cur" "refcount cur = Some r"
  shows "0 < refs t r"
proof -
  have "h \<in> {k. refOf (t k) = Some r}" using assms(2,3) by simp
  moreover have "finite {k. refOf (t k) = Some r}" by (rule refs_set_finite [OF assms(1)])
  ultimately have "0 < card {k. refOf (t k) = Some r}"
    unfolding card_gt_0_iff by blast
  then show ?thesis unfolding refs_def .
qed

lemma refs_zero:
  assumes "finite (dom t)" "refs t r = 0" "t h = Some cur"
  shows "refcount cur \<noteq> Some r"
  using refs_pos [OF assms(1,3)] assms(2) by auto

lemma counts_strong_pos:
  "countsOk s \<Longrightarrow> smart s h = Some cur \<Longrightarrow> refcount cur = Some a \<Longrightarrow> 0 < strongOf s a"
  unfolding countsOk_def using refs_pos [of "smart s" h cur a] by simp

lemma counts_weak_pos:
  "countsOk s \<Longrightarrow> weakp s h = Some cur \<Longrightarrow> refcount cur = Some a \<Longrightarrow> 0 < weakOf s a"
  unfolding countsOk_def using refs_pos [of "weakp s" h cur a] by simp

lemma strongOf_fields [simp]:
  "strongOf (s\<lparr>smart := t\<rparr>) = strongOf s" "strongOf (s\<lparr>weakp := t\<rparr>) = strongOf s"
  "strongOf (s\<lparr>owned := u\<rparr>) = strongOf s" "strongOf (s\<lparr>deleted := dl\<rparr>) = strongOf s"
  "strongOf (s\<lparr>nextObject := n\<rparr>) = strongOf s"
  by (simp_all add: strongOf_def fun_eq_iff)

lemma weakOf_fields [simp]:
  "weakOf (s\<lparr>smart := t\<rparr>) = weakOf s" "weakOf (s\<lparr>weakp := t\<rparr>) = weakOf s"
  "weakOf (s\<lparr>owned := u\<rparr>) = weakOf s" "weakOf (s\<lparr>deleted := dl\<rparr>) = weakOf s"
  "weakOf (s\<lparr>nextObject := n\<rparr>) = weakOf s"
  by (simp_all add: weakOf_def fun_eq_iff)

lemma heapOk_fields [simp]:
  "heapOk (s\<lparr>smart := t\<rparr>) = heapOk s" "heapOk (s\<lparr>weakp := t\<rparr>) = heapOk s"
  "heapOk (s\<lparr>owned := u\<rparr>) = heapOk s" "heapOk (s\<lparr>deleted := dl\<rparr>) = heapOk s"
  "heapOk (s\<lparr>nextObject := n\<rparr>) = heapOk s"
  by (simp_all add: heapOk_def)

lemma strongOf_setSmart [simp]: "strongOf (setSmart h v s) = strongOf s"
  and weakOf_setSmart [simp]: "weakOf (setSmart h v s) = weakOf s"
  and heapOk_setSmart [simp]: "heapOk (setSmart h v s) = heapOk s"
  using heapOk_cong [of "setSmart h v s" s] by (simp_all add: setSmart_def)

lemma strongOf_setWeak [simp]: "strongOf (setWeak h v s) = strongOf s"
  and weakOf_setWeak [simp]: "weakOf (setWeak h v s) = weakOf s"
  and heapOk_setWeak [simp]: "heapOk (setWeak h v s) = heapOk s"
  using heapOk_cong [of "setWeak h v s" s] by (simp_all add: setWeak_def)

lemma strongOf_setOwned [simp]: "strongOf (setOwned h v s) = strongOf s"
  and weakOf_setOwned [simp]: "weakOf (setOwned h v s) = weakOf s"
  and heapOk_setOwned [simp]: "heapOk (setOwned h v s) = heapOk s"
  using heapOk_cong [of "setOwned h v s" s] by (simp_all add: setOwned_def)

lemma strongOf_deleteObject [simp]: "strongOf (deleteObject p s) = strongOf s"
  and weakOf_deleteObject [simp]: "weakOf (deleteObject p s) = weakOf s"
  and heapOk_deleteObject [simp]: "heapOk (deleteObject p s) = heapOk s"
  using heapOk_cong [of "deleteObject p s" s] by (simp_all add: deleteObject_def)

text \<open>The effect of the two-argument reset.\<close>

lemma SmartPtr_reset2_ok:
  assumes "heapOk s" "smart s this = Some cur"
    and "refcount cur = None \<or> (\<exists>a. refcount cur = Some a \<and> 0 < strongOf s a)"
    and "nr = None \<or> (\<exists>a. nr = Some a \<and> (0 < strongOf s a \<or> 0 < weakOf s a))"
  shows "\<exists>s'. SmartPtr_reset2 this nv nr s = Inr s' \<and> heapOk s' \<and>
           smart s' = (smart s)(this \<mapsto> \<lparr>ptr = nv, refcount = nr\<rparr>) \<and>
           weakp s' = weakp s \<and> owned s' = owned s \<and>
           nextObject s' = nextObject s \<and> nextBlock s' = nextBlock s \<and>
           strongOf s' = bump (refcount cur) (- 1) (bump nr 1 (strongOf s)) \<and>
           weakOf s' = weakOf s \<and>
           deleted s' =
             deleteEnsuringCompleteType
               (if \<exists>a. refcount cur = Some a \<and> strongOf s' a = 0 then ptr cur else None)
               (deleted s)"
proof -
  let ?s1 = "setSmart this \<lparr>ptr = nv, refcount = nr\<rparr> s"
  have h1: "heapOk ?s1" using assms(1) by simp
  from Refcount_inc_ok [OF h1, of nr] assms(4)
  obtain s2 where s2: "Refcount_inc nr ?s1 = Inr s2" "heapOk s2" "frame ?s1 s2"
    "strongOf s2 = bump nr 1 (strongOf s)" "weakOf s2 = weakOf s" "nextBlock s2 = nextBlock ?s1"
    by auto
  have pre: "refcount cur = None \<or> (\<exists>a. refcount cur = Some a \<and> 0 < strongOf s2 a)"
    using assms(3) s2(4) by (auto simp: bump_def split: option.splits)
  from Refcount_dec_ok [OF s2(2) pre]
  obtain b s3 where s3: "Refcount_dec (refcount cur) s2 = Inr (b, s3)" "heapOk s3" "frame s2 s3"
    "strongOf s3 = bump (refcount cur) (- 1) (strongOf s2)" "weakOf s3 = weakOf s2"
    "nextBlock s3 = nextBlock s2" "b = (\<exists>a. refcount cur = Some a \<and> strongOf s3 a = 0)"
    by auto
  let ?s' = "if b then deleteObject (ptr cur) s3 else s3"
  have r: "SmartPtr_reset2 this nv nr s = Inr ?s'"
    using assms(2) s2(1) s3(1) by (simp add: SmartPtr_reset2_def thenDo_def getSmart_def Let_def)
  have so: "strongOf ?s' = strongOf s3" "weakOf ?s' = weakOf s3" "heapOk ?s'"
    using s3(2) by simp_all
  show ?thesis
    apply (rule exI [of _ ?s'])
    using r so s2 s3
    by (auto simp: frame_def setSmart_def deleteObject_def deleteEnsuringCompleteType_def)
qed

lemma counts_after_replace:
  assumes "countsOk s" "smart s' = (smart s)(h := x)" "weakp s' = weakp s"
    "strongOf s' = bump (refOf (smart s h)) (- 1) (bump (refOf x) 1 (strongOf s))"
    "weakOf s' = weakOf s"
  shows "countsOk s'"
proof -
  have fin: "finite (dom (smart s))" using assms(1) by (simp add: countsOk_def)
  have "finite (dom (smart s'))" unfolding assms(2)
    by (rule finite_subset [of _ "insert h (dom (smart s))"]) (use fin in \<open>auto split: if_splits\<close>)
  moreover have "\<forall>r. strongOf s' r = int (refs (smart s') r)"
    using assms(1) unfolding assms(2,4) countsOk_def
    by (auto simp: refs_upd_gen [OF fin] bump_def split: option.splits)
  ultimately show ?thesis using assms(1,3,5) by (simp add: countsOk_def)
qed

lemma ptrOf_simps [simp]: "ptrOf None = None" "ptrOf (Some cur) = ptr cur"
  by (simp_all add: ptrOf_def)

text \<open>No handle points to a block that is not allocated.\<close>

lemma unallocated_unheld:
  assumes "heapOk s" "countsOk s" "holds s c" "refcount c = Some a"
  shows "blocks s a \<noteq> None"
proof -
  have "0 < strongOf s a \<or> 0 < weakOf s a"
    using assms(2-4) counts_strong_pos counts_weak_pos unfolding holds_def by blast
  then show ?thesis using heapOk_allocated [OF assms(1)] by simp
qed

lemma fresh_block_unheld:
  assumes "heapOk s" "countsOk s" "holds s c"
  shows "refcount c \<noteq> Some (nextBlock s)"
  using unallocated_unheld [OF assms] heapOk_freshD [OF assms(1), of "nextBlock s"] by auto

lemma live_block_has_holder:
  assumes "countsOk s" "0 < strongOf s a"
  shows "\<exists>k c. smart s k = Some c \<and> refcount c = Some a"
proof -
  have "0 < refs (smart s) a" using assms unfolding countsOk_def by simp
  then have "{h. refOf (smart s h) = Some a} \<noteq> {}" unfolding refs_def by (metis card.empty less_irrefl)
  then obtain k where "refOf (smart s k) = Some a" by blast
  then show ?thesis by (cases "smart s k") auto
qed

lemma eq_flip: "(a = b) = (c = d) \<Longrightarrow> (b = a) = (d = c)"
  by auto

lemma objects_step:
  assumes hp: "heapOk s" and cn: "countsOk s" and ob: "objectsOk s"
    and cn': "countsOk s'"
    and dr: "dropped = None \<or> (\<exists>k. smart s k = dropped)"
    and sm: "\<And>k c. smart s' k = Some c \<Longrightarrow>
               (\<exists>k'. smart s k' = Some c) \<or> Some c = x \<or> c = nullHandle"
    and wk: "\<And>k c. weakp s' k = Some c \<Longrightarrow>
               (\<exists>k'. weakp s k' = Some c) \<or> Some c = y \<or> c = nullHandle"
    and del: "deleted s' =
                deleteEnsuringCompleteType
                  (if \<exists>a. refOf dropped = Some a \<and> strongOf s' a = 0 then ptrOf dropped else None)
                  (deleted s)"
    and mono: "\<And>r. refOf dropped \<noteq> Some r \<Longrightarrow> strongOf s r \<le> strongOf s' r"
    and nobj: "nextObject s \<le> nextObject s'"
    and own: "\<And>k v. owned s' k = Some (Some v) \<Longrightarrow> owned s k = Some (Some v)"
    and orgx: "origin s s' x"
    and orgy: "originWeak s y"
  shows "objectsOk s' \<and> destroyedIffZero s s'"
proof -
  note O = ob [unfolded objectsOk_def]
  have A: "\<And>c. holds s c \<Longrightarrow> (ptr c = None) = (refcount c = None)" using O by blast
  have B: "\<And>c c'. holds s c \<Longrightarrow> holds s c' \<Longrightarrow> (ptr c = ptr c') = (refcount c = refcount c')"
    using O by blast
  have E: "\<And>c p. holds s c \<Longrightarrow> ptr c = Some p \<Longrightarrow> p < nextObject s" using O by blast
  have C: "\<And>k c p. smart s k = Some c \<Longrightarrow> ptr c = Some p \<Longrightarrow> p \<notin> set (deleted s)"
    using O by blast
  have D: "distinct (deleted s)" using O by blast
  have F: "\<And>p. p \<in> set (deleted s) \<Longrightarrow> p < nextObject s" using O by blast
  have G: "\<And>k p. owned s k = Some (Some p) \<Longrightarrow>
             p < nextObject s \<and> p \<notin> set (deleted s) \<and> (\<forall>c. holds s c \<longrightarrow> ptr c \<noteq> Some p)"
    using O by blast
  have H: "\<And>k k' p. owned s k = Some (Some p) \<Longrightarrow> owned s k' = Some (Some p) \<Longrightarrow> k = k'"
    using O by blast

  text \<open>An object a live block stands for is not deleted.\<close>
  have live: "p \<notin> set (deleted s)"
    if t: "holds s e" "ptr e = Some p" "refcount e = Some a" "0 < strongOf s a" for e p a
  proof -
    have "\<exists>k c. smart s k = Some c \<and> refcount c = Some a"
      by (rule live_block_has_holder [OF cn t(4)])
    then obtain k c where kc: "smart s k = Some c" "refcount c = Some a" by blast
    have "holds s c" using kc(1) unfolding holds_def by blast
    then have "ptr c = ptr e" using B [of c e] t(1,3) kc(2) by simp
    then show ?thesis using C [OF kc(1)] t(2) by simp
  qed

  text \<open>Every handle of the new state is an old one, the null handle or the fresh one.\<close>
  have hs: "holds s c \<or> Some c = x \<or> Some c = y \<or> c = nullHandle" if t: "holds s' c" for c
    using t sm wk unfolding holds_def by blast
  have ynew: "holds s c \<or> c = nullHandle" if t: "Some c = y" for c
    using t orgy unfolding originWeak_def by auto
  have xcases: "holds s c \<or> c = nullHandle \<or>
      (\<exists>p. c = \<lparr>ptr = Some p, refcount = Some (nextBlock s)\<rparr> \<and> p < nextObject s' \<and>
           p \<notin> set (deleted s) \<and> (\<forall>c. holds s c \<longrightarrow> ptr c \<noteq> Some p) \<and>
           (\<forall>k. owned s' k \<noteq> Some (Some p)))" if t: "Some c = x" for c
    using t orgx unfolding origin_def by auto
  have xlive: "p \<notin> set (deleted s)" if t: "Some c = x" "ptr c = Some p" for c p
  proof -
    have "c = nullHandle \<or>
      (holds s c \<and> (\<forall>a. refcount c = Some a \<longrightarrow> 0 < strongOf s a)) \<or>
      (\<exists>q. c = \<lparr>ptr = Some q, refcount = Some (nextBlock s)\<rparr> \<and> q \<notin> set (deleted s))"
      using orgx t(1) unfolding origin_def by auto
    then consider "c = nullHandle"
      | "holds s c" "\<forall>a. refcount c = Some a \<longrightarrow> 0 < strongOf s a"
      | "\<exists>q. c = \<lparr>ptr = Some q, refcount = Some (nextBlock s)\<rparr> \<and> q \<notin> set (deleted s)"
      by blast
    then show ?thesis
    proof cases
      case 1
      then show ?thesis using t(2) by (simp add: nullHandle_def)
    next
      case 2
      obtain a where a: "refcount c = Some a" using A [OF 2(1)] t(2) by auto
      show ?thesis by (rule live [OF 2(1) t(2) a]) (use 2(2) a in simp)
    next
      case 3
      then show ?thesis using t(2) by auto
    qed
  qed
  define fresh where "fresh c \<longleftrightarrow> Some c = x \<and>
      (\<exists>p. c = \<lparr>ptr = Some p, refcount = Some (nextBlock s)\<rparr> \<and> p < nextObject s' \<and>
           p \<notin> set (deleted s) \<and> (\<forall>c. holds s c \<longrightarrow> ptr c \<noteq> Some p) \<and>
           (\<forall>k. owned s' k \<noteq> Some (Some p)))" for c
  have cases3: "holds s c \<or> c = nullHandle \<or> fresh c" if t: "holds s' c" for c
  proof -
    from hs [OF t] show ?thesis
    proof (elim disjE)
      assume "holds s c" then show ?thesis by simp
    next
      assume "Some c = x" then show ?thesis using xcases [of c] unfolding fresh_def by blast
    next
      assume "Some c = y" then show ?thesis using ynew [of c] by blast
    next
      assume "c = nullHandle" then show ?thesis by simp
    qed
  qed
  have freshD: "\<exists>p. ptr c = Some p \<and> refcount c = Some (nextBlock s) \<and> p < nextObject s' \<and>
      p \<notin> set (deleted s) \<and> (\<forall>c. holds s c \<longrightarrow> ptr c \<noteq> Some p) \<and>
      (\<forall>k. owned s' k \<noteq> Some (Some p))" if t: "fresh c" for c
  proof -
    from t obtain p where p: "c = \<lparr>ptr = Some p, refcount = Some (nextBlock s)\<rparr>"
      "p < nextObject s'" "p \<notin> set (deleted s)" "\<forall>c. holds s c \<longrightarrow> ptr c \<noteq> Some p"
      "\<forall>k. owned s' k \<noteq> Some (Some p)" unfolding fresh_def by blast
    have "ptr c = Some p" "refcount c = Some (nextBlock s)" using p(1) by simp_all
    then show ?thesis using p(2-5) by blast
  qed
  have fresh_eq: "c = c'" if t: "fresh c" "fresh c'" for c c'
  proof -
    have "Some c = x" "Some c' = x" using t unfolding fresh_def by blast+
    then have "Some c = Some c'" by simp
    then show ?thesis by simp
  qed
  have freshref: "refcount c \<noteq> Some (nextBlock s)" if t: "holds s c" for c
    by (rule fresh_block_unheld [OF hp cn t])
  have nullD: "ptr nullHandle = None" "refcount nullHandle = None" by (simp_all add: nullHandle_def)

  have A': "(ptr c = None) = (refcount c = None)" if t: "holds s' c" for c
  proof -
    from cases3 [OF t] show ?thesis
    proof (elim disjE)
      assume "holds s c" then show ?thesis by (rule A)
    next
      assume "c = nullHandle" then show ?thesis using nullD by simp
    next
      assume "fresh c"
      from freshD [OF this] obtain p where "ptr c = Some p" "refcount c = Some (nextBlock s)" by blast
      then show ?thesis by simp
    qed
  qed
  have Bfresh: "(ptr c = ptr c') = (refcount c = refcount c')" if t: "fresh c" "holds s c'" for c c'
  proof -
    from freshD [OF t(1)] obtain p where p: "ptr c = Some p" "refcount c = Some (nextBlock s)"
      "\<forall>c. holds s c \<longrightarrow> ptr c \<noteq> Some p" by blast
    have 1: "ptr c' \<noteq> Some p" using p(3) t(2) by blast
    have 2: "refcount c' \<noteq> Some (nextBlock s)" by (rule freshref [OF t(2)])
    have "ptr c \<noteq> ptr c'" using 1 p(1) by simp
    moreover have "refcount c \<noteq> refcount c'" using 2 p(2) by simp
    ultimately show ?thesis by simp
  qed
  have Bnull: "(ptr c = ptr c') = (refcount c = refcount c')" if t: "c = nullHandle" "holds s' c'" for c c'
  proof -
    have "(ptr c' = None) = (refcount c' = None)" by (rule A' [OF t(2)])
    then have "(None = ptr c') = (None = refcount c')" by (rule eq_flip)
    then show ?thesis using t(1) nullD by simp
  qed
  have B': "(ptr c = ptr c') = (refcount c = refcount c')" if t: "holds s' c" "holds s' c'" for c c'
  proof -
    from cases3 [OF t(1)] show ?thesis
    proof (elim disjE)
      assume c: "holds s c"
      from cases3 [OF t(2)] show ?thesis
      proof (elim disjE)
        assume n: "holds s c'" show ?thesis by (rule B [OF c n])
      next
        assume n: "c' = nullHandle"
        have "(ptr c' = ptr c) = (refcount c' = refcount c)" by (rule Bnull [OF n t(1)])
        then show ?thesis by (rule eq_flip)
      next
        assume n: "fresh c'"
        have "(ptr c' = ptr c) = (refcount c' = refcount c)" by (rule Bfresh [OF n c])
        then show ?thesis by (rule eq_flip)
      qed
    next
      assume n: "c = nullHandle" show ?thesis by (rule Bnull [OF n t(2)])
    next
      assume c: "fresh c"
      from cases3 [OF t(2)] show ?thesis
      proof (elim disjE)
        assume n: "holds s c'" show ?thesis by (rule Bfresh [OF c n])
      next
        assume n: "c' = nullHandle"
        have "(ptr c' = ptr c) = (refcount c' = refcount c)" by (rule Bnull [OF n t(1)])
        then show ?thesis by (rule eq_flip)
      next
        assume n: "fresh c'"
        have "c = c'" by (rule fresh_eq [OF c n])
        then show ?thesis by simp
      qed
    qed
  qed
  have E': "p < nextObject s'" if t: "holds s' c" "ptr c = Some p" for c p
  proof -
    from cases3 [OF t(1)] show ?thesis
    proof (elim disjE)
      assume "holds s c"
      then have "p < nextObject s" using E t(2) by blast
      then show ?thesis using nobj by simp
    next
      assume "c = nullHandle" then show ?thesis using t(2) nullD by simp
    next
      assume "fresh c"
      from freshD [OF this] obtain q where "ptr c = Some q" "q < nextObject s'" by blast
      then show ?thesis using t(2) by simp
    qed
  qed

  text \<open>What the step deleted.\<close>
  define gone where
    "gone = (if \<exists>a. refOf dropped = Some a \<and> strongOf s' a = 0 then ptrOf dropped else None)"
  have del': "deleted s' = deleteEnsuringCompleteType gone (deleted s)" using del gone_def by simp
  have goneD: "\<exists>k c a. smart s k = Some c \<and> ptr c = Some p \<and> refcount c = Some a \<and> strongOf s' a = 0"
    if t: "gone = Some p" for p
  proof -
    have z: "\<exists>a. refOf dropped = Some a \<and> strongOf s' a = 0" "ptrOf dropped = Some p"
      using t unfolding gone_def by (simp_all split: if_splits)
    then obtain c where c: "dropped = Some c" by (cases dropped) auto
    have "\<exists>k. smart s k = Some c" using dr c by auto
    then obtain k where k: "smart s k = Some c" by blast
    obtain a where a: "refcount c = Some a" "strongOf s' a = 0" using z(1) c by auto
    have "ptr c = Some p" using z(2) c by simp
    then show ?thesis using k a by blast
  qed
  have set_del: "set (deleted s') = set (deleted s) \<union> set_option gone"
    unfolding del' by (cases gone) (simp_all add: deleteEnsuringCompleteType_def)
  have goneNone: "deleted s' = deleted s" if t: "gone = None"
    unfolding del' t by (simp add: deleteEnsuringCompleteType_def)
  have goneSome: "deleted s' = deleted s @ [p]" if t: "gone = Some p" for p
    unfolding del' t by (simp add: deleteEnsuringCompleteType_def)

  have smartholder: "0 < strongOf s' a" if t: "smart s' k = Some c" "refcount c = Some a" for k c a
    by (rule counts_strong_pos [OF cn' t])
  have held_of_smart: "holds s c" if t: "smart s k = Some c" for k c
    using t unfolding holds_def by blast
  have held_of_smart': "holds s' c" if t: "smart s' k = Some c" for k c
    using t unfolding holds_def by blast

  have notgone: "gone \<noteq> Some p" if t: "smart s' k = Some c" "ptr c = Some p" for k c p
  proof
    assume "gone = Some p"
    from goneD [OF this] obtain k0 c0 a0 where g: "smart s k0 = Some c0" "ptr c0 = Some p"
      "refcount c0 = Some a0" "strongOf s' a0 = 0" by blast
    have h0: "holds s c0" by (rule held_of_smart [OF g(1)])
    from cases3 [OF held_of_smart' [OF t(1)]] show False
    proof (elim disjE)
      assume hc: "holds s c"
      have "(ptr c = ptr c0) = (refcount c = refcount c0)" by (rule B [OF hc h0])
      then have "refcount c = Some a0" using t(2) g(2,3) by simp
      then have "0 < strongOf s' a0" by (rule smartholder [OF t(1)])
      then show False using g(4) by simp
    next
      assume "c = nullHandle"
      then show False using t(2) nullD by simp
    next
      assume "fresh c"
      from freshD [OF this] obtain q where q: "ptr c = Some q" "\<forall>c. holds s c \<longrightarrow> ptr c \<noteq> Some q"
        by blast
      have "q = p" using q(1) t(2) by simp
      then show False using q(2) h0 g(2) by blast
    qed
  qed
  have C0: "p \<notin> set (deleted s)" if t: "smart s' k = Some c" "ptr c = Some p" for k c p
  proof -
    from sm [OF t(1)] show ?thesis
    proof (elim disjE)
      assume "\<exists>k'. smart s k' = Some c"
      then obtain k' where "smart s k' = Some c" by blast
      then show ?thesis using t(2) by (rule C)
    next
      assume "Some c = x"
      then show ?thesis using t(2) by (rule xlive)
    next
      assume "c = nullHandle"
      then show ?thesis using t(2) nullD by simp
    qed
  qed
  have C': "p \<notin> set (deleted s')" if t: "smart s' k = Some c" "ptr c = Some p" for k c p
  proof (cases gone)
    case None
    show ?thesis unfolding goneNone [OF None] by (rule C0 [OF t])
  next
    case (Some q)
    have "q \<noteq> p" using notgone [OF t] Some by simp
    then show ?thesis unfolding goneSome [OF Some] using C0 [OF t] by simp
  qed
  have D': "distinct (deleted s')"
  proof (cases gone)
    case None
    show ?thesis unfolding goneNone [OF None] by (rule D)
  next
    case (Some p)
    from goneD [OF this] obtain k c where "smart s k = Some c" "ptr c = Some p" by blast
    then have "p \<notin> set (deleted s)" by (rule C)
    then show ?thesis unfolding goneSome [OF Some] using D by simp
  qed
  have gone_bound: "p < nextObject s" if t: "gone = Some p" for p
  proof -
    from goneD [OF t] obtain k c where kc: "smart s k = Some c" "ptr c = Some p" by blast
    show ?thesis by (rule E [OF held_of_smart [OF kc(1)] kc(2)])
  qed
  have F': "p < nextObject s'" if t: "p \<in> set (deleted s')" for p
  proof (cases gone)
    case None
    have "p < nextObject s" using t unfolding goneNone [OF None] by (rule F)
    then show ?thesis using nobj by simp
  next
    case (Some q)
    have "p \<in> set (deleted s) \<or> p = q" using t unfolding goneSome [OF Some] by auto
    then have "p < nextObject s"
    proof
      assume "p \<in> set (deleted s)" then show ?thesis by (rule F)
    next
      assume "p = q" then show ?thesis using gone_bound [OF Some] by simp
    qed
    then show ?thesis using nobj by simp
  qed
  have G': "p < nextObject s' \<and> p \<notin> set (deleted s') \<and> (\<forall>c. holds s' c \<longrightarrow> ptr c \<noteq> Some p)"
    if t: "owned s' k = Some (Some p)" for k p
  proof -
    have o: "owned s k = Some (Some p)" by (rule own [OF t])
    have g: "p < nextObject s" "p \<notin> set (deleted s)" "\<And>c. holds s c \<Longrightarrow> ptr c \<noteq> Some p"
      using G [OF o] by blast+
    have 1: "p < nextObject s'" using g(1) nobj by simp
    have 2: "gone \<noteq> Some p"
    proof
      assume "gone = Some p"
      from goneD [OF this] obtain k0 c0 where kc: "smart s k0 = Some c0" "ptr c0 = Some p" by blast
      show False using g(3) [OF held_of_smart [OF kc(1)]] kc(2) by simp
    qed
    have 3: "ptr c \<noteq> Some p" if u: "holds s' c" for c
    proof -
      from cases3 [OF u] show ?thesis
      proof (elim disjE)
        assume "holds s c" then show ?thesis by (rule g(3))
      next
        assume "c = nullHandle" then show ?thesis using nullD by simp
      next
        assume "fresh c"
        from freshD [OF this] obtain q where q: "ptr c = Some q" "\<forall>k. owned s' k \<noteq> Some (Some q)"
          by blast
        have "q \<noteq> p" using q(2) t by blast
        then show ?thesis using q(1) by simp
      qed
    qed
    have 4: "p \<notin> set (deleted s')"
    proof (cases gone)
      case None
      show ?thesis unfolding goneNone [OF None] by (rule g(2))
    next
      case (Some q)
      have "q \<noteq> p" using 2 Some by simp
      then show ?thesis unfolding goneSome [OF Some] using g(2) by simp
    qed
    show ?thesis using 1 3 4 by blast
  qed
  have H': "k = k'" if t: "owned s' k = Some (Some p)" "owned s' k' = Some (Some p)" for k k' p
    by (rule H [OF own [OF t(1)] own [OF t(2)]])
  have inv: "objectsOk s'"
    unfolding objectsOk_def
  proof (intro conjI allI impI ballI)
    fix c assume "holds s' c" then show "(ptr c = None) = (refcount c = None)" by (rule A')
  next
    fix c c' assume "holds s' c" "holds s' c'"
    then show "(ptr c = ptr c') = (refcount c = refcount c')" by (rule B')
  next
    fix c p assume "holds s' c" "ptr c = Some p" then show "p < nextObject s'" by (rule E')
  next
    fix k c p assume "smart s' k = Some c" "ptr c = Some p"
    then show "p \<notin> set (deleted s')" by (rule C')
  next
    show "distinct (deleted s')" by (rule D')
  next
    fix p assume "p \<in> set (deleted s')" then show "p < nextObject s'" by (rule F')
  next
    fix k p assume o: "owned s' k = Some (Some p)"
    show "p < nextObject s'" using G' [OF o] by blast
    show "p \<notin> set (deleted s')" using G' [OF o] by blast
    fix c assume "holds s' c" then show "ptr c \<noteq> Some p" using G' [OF o] by blast
  next
    fix k k' p assume "owned s' k = Some (Some p)" "owned s' k' = Some (Some p)"
    then show "k = k'" by (rule H')
  qed

  have sp: "destroyedIffZero s s'"
    unfolding destroyedIffZero_def
  proof (intro allI impI)
    fix k c p a assume kc: "smart s k = Some c" "ptr c = Some p" "refcount c = Some a"
    have hc: "holds s c" by (rule held_of_smart [OF kc(1)])
    have nd: "p \<notin> set (deleted s)" by (rule C [OF kc(1,2)])
    have pos: "0 < strongOf s a" by (rule counts_strong_pos [OF cn kc(1,3)])
    show "(p \<in> set (deleted s')) = (strongOf s' a = 0)"
    proof
      assume "p \<in> set (deleted s')"
      then have "gone = Some p" using nd unfolding set_del by (cases gone) auto
      from goneD [OF this] obtain k0 c0 a0 where g: "smart s k0 = Some c0" "ptr c0 = Some p"
        "refcount c0 = Some a0" "strongOf s' a0 = 0" by blast
      have "(ptr c = ptr c0) = (refcount c = refcount c0)"
        by (rule B [OF hc held_of_smart [OF g(1)]])
      then have "a0 = a" using kc g by simp
      then show "strongOf s' a = 0" using g(4) by simp
    next
      assume z: "strongOf s' a = 0"
      have r: "refOf dropped = Some a"
      proof (rule ccontr)
        assume "refOf dropped \<noteq> Some a"
        from mono [OF this] pos z show False by simp
      qed
      then obtain c0 where c0: "dropped = Some c0" "refcount c0 = Some a" by (cases dropped) auto
      have "\<exists>k0. smart s k0 = Some c0" using dr c0 by auto
      then obtain k0 where k0: "smart s k0 = Some c0" by blast
      have "(ptr c = ptr c0) = (refcount c = refcount c0)"
        by (rule B [OF hc held_of_smart [OF k0]])
      then have "ptr c0 = Some p" using kc c0 by simp
      then have "gone = Some p" unfolding gone_def using r z c0 by auto
      then show "p \<in> set (deleted s')" unfolding set_del by simp
    qed
  qed
  show ?thesis using inv sp by simp
qed

lemma counts_after_replace_weak:
  assumes "countsOk s" "weakp s' = (weakp s)(h := x)" "smart s' = smart s"
    "weakOf s' = bump (refOf (weakp s h)) (- 1) (bump (refOf x) 1 (weakOf s))"
    "strongOf s' = strongOf s"
  shows "countsOk s'"
proof -
  have fin: "finite (dom (weakp s))" using assms(1) by (simp add: countsOk_def)
  have "finite (dom (weakp s'))" unfolding assms(2)
    by (rule finite_subset [of _ "insert h (dom (weakp s))"]) (use fin in \<open>auto split: if_splits\<close>)
  moreover have "\<forall>r. weakOf s' r = int (refs (weakp s') r)"
    using assms(1) unfolding assms(2,4) countsOk_def
    by (auto simp: refs_upd_gen [OF fin] bump_def split: option.splits)
  ultimately show ?thesis using assms(1,3,5) by (simp add: countsOk_def)
qed

lemma bump_mono:
  assumes "r0 \<noteq> Some r"
  shows "f r \<le> bump r0 (- 1) (bump r1 1 f) r"
  using assms by (auto simp: bump_def split: option.splits)

lemma smart_replace_inv:
  assumes inv: "Inv s"
    and e1: "smart s' = (smart s)(h := x)"
    and e2: "weakp s' = weakp s"
    and e3: "strongOf s' = bump (refOf (smart s h)) (- 1) (bump (refOf x) 1 (strongOf s))"
    and e4: "weakOf s' = weakOf s"
    and e5: "heapOk s'"
    and e6: "deleted s' =
               deleteEnsuringCompleteType
                 (if \<exists>a. refOf (smart s h) = Some a \<and> strongOf s' a = 0
                  then ptrOf (smart s h) else None)
                 (deleted s)"
    and e7: "nextObject s \<le> nextObject s'"
    and e8: "\<And>k v. owned s' k = Some (Some v) \<Longrightarrow> owned s k = Some (Some v)"
    and e9: "origin s s' x"
  shows "Inv s' \<and> destroyedIffZero s s'"
proof -
  have hp: "heapOk s" and cn: "countsOk s" and ob: "objectsOk s" using inv by (simp_all add: Inv_def)
  have cn': "countsOk s'" by (rule counts_after_replace [OF cn e1 e2 e3 e4])
  have dr: "smart s h = None \<or> (\<exists>k. smart s k = smart s h)" by blast
  have sm: "(\<exists>k'. smart s k' = Some c) \<or> Some c = x \<or> c = nullHandle"
    if t: "smart s' k = Some c" for k c
    using t unfolding e1 by (cases "k = h") auto
  have wk: "(\<exists>k'. weakp s k' = Some c) \<or> Some c = None \<or> c = nullHandle"
    if t: "weakp s' k = Some c" for k c
    using t unfolding e2 by blast
  have mono: "strongOf s r \<le> strongOf s' r" if t: "refOf (smart s h) \<noteq> Some r" for r
    unfolding e3 by (rule bump_mono [OF t])
  have oy: "originWeak s None" by (simp add: originWeak_def)
  from objects_step [OF hp cn ob cn' dr sm wk e6 mono e7 e8 e9 oy]
  show ?thesis using e5 cn' by (simp add: Inv_def)
qed

lemma weak_replace_inv:
  assumes inv: "Inv s"
    and e1: "weakp s' = (weakp s)(h := y)"
    and e2: "smart s' = smart s"
    and e3: "weakOf s' = bump (refOf (weakp s h)) (- 1) (bump (refOf y) 1 (weakOf s))"
    and e4: "strongOf s' = strongOf s"
    and e5: "heapOk s'"
    and e6: "deleted s' = deleted s"
    and e7: "nextObject s' = nextObject s"
    and e8: "owned s' = owned s"
    and e9: "originWeak s y"
  shows "Inv s' \<and> destroyedIffZero s s'"
proof -
  have hp: "heapOk s" and cn: "countsOk s" and ob: "objectsOk s" using inv by (simp_all add: Inv_def)
  have cn': "countsOk s'" by (rule counts_after_replace_weak [OF cn e1 e2 e3 e4])
  have dr: "(None :: Handle option) = None \<or> (\<exists>k. smart s k = None)" by blast
  have sm: "(\<exists>k'. smart s k' = Some c) \<or> Some c = None \<or> c = nullHandle"
    if t: "smart s' k = Some c" for k c
    using t unfolding e2 by blast
  have wk: "(\<exists>k'. weakp s k' = Some c) \<or> Some c = y \<or> c = nullHandle"
    if t: "weakp s' k = Some c" for k c
    using t unfolding e1 by (cases "k = h") auto
  have del: "deleted s' =
      deleteEnsuringCompleteType
        (if \<exists>a. refOf None = Some a \<and> strongOf s' a = 0 then ptrOf None else None) (deleted s)"
    using e6 by (simp add: deleteEnsuringCompleteType_def)
  have mono: "strongOf s r \<le> strongOf s' r" if t: "refOf None \<noteq> Some r" for r
    unfolding e4 by simp
  have nobj: "nextObject s \<le> nextObject s'" using e7 by simp
  have own: "owned s k = Some (Some v)" if t: "owned s' k = Some (Some v)" for k v
    using t unfolding e8 .
  have ox: "origin s s' None" by (simp add: origin_def)
  from objects_step [OF hp cn ob cn' dr sm wk del mono nobj own ox e9]
  show ?thesis using e5 cn' by (simp add: Inv_def)
qed

lemma outcomeI: "r = Inr s' \<Longrightarrow> Inv s' \<and> destroyedIffZero s s' \<Longrightarrow> outcome s r"
  unfolding outcome_def by blast

lemma Inv_smart_pre:
  assumes "Inv s" "smart s k = Some c"
  shows "refcount c = None \<or> (\<exists>a. refcount c = Some a \<and> 0 < strongOf s a)"
proof (cases "refcount c")
  case None
  then show ?thesis by simp
next
  case (Some a)
  have "countsOk s" using assms(1) by (simp add: Inv_def)
  from counts_strong_pos [OF this assms(2) Some] show ?thesis using Some by simp
qed

lemma Inv_weak_pre:
  assumes "Inv s" "weakp s k = Some c"
  shows "refcount c = None \<or> (\<exists>a. refcount c = Some a \<and> 0 < weakOf s a)"
proof (cases "refcount c")
  case None
  then show ?thesis by simp
next
  case (Some a)
  have "countsOk s" using assms(1) by (simp add: Inv_def)
  from counts_weak_pos [OF this assms(2) Some] show ?thesis using Some by simp
qed

lemma handle_eta [simp]: "\<lparr>ptr = ptr c, refcount = refcount c\<rparr> = (c :: Handle)"
  by simp

lemma origin_smart:
  assumes "Inv s" "smart s k = Some c"
  shows "origin s s' (Some c)"
proof -
  have "holds s c" using assms(2) unfolding holds_def by blast
  moreover have "\<forall>a. refcount c = Some a \<longrightarrow> 0 < strongOf s a"
    using Inv_smart_pre [OF assms] by auto
  ultimately show ?thesis unfolding origin_def by blast
qed

lemma origin_null [simp]: "origin s s' (Some nullHandle)" "origin s s' None"
  by (simp_all add: origin_def)

lemma originWeak_simps [simp]: "originWeak s (Some nullHandle)" "originWeak s None"
  by (simp_all add: originWeak_def)

lemma bump_None [simp]: "bump None k f = f"
  by (simp add: bump_def)

lemma refOf_null [simp]: "refcount nullHandle = None" "ptr nullHandle = None"
  by (simp_all add: nullHandle_def)

lemma delete_None [simp]: "deleteEnsuringCompleteType None dl = dl"
  by (simp add: deleteEnsuringCompleteType_def)

text \<open>Declaring an empty shared handle.\<close>

lemma SmartPtr_new_ok:
  assumes "Inv s"
  shows "outcome s (SmartPtr_new h s)"
proof (cases "smart s h")
  case (Some c)
  then show ?thesis by (simp add: outcome_def SmartPtr_new_def)
next
  case None
  let ?s' = "setSmart h nullHandle s"
  have r: "SmartPtr_new h s = Inr ?s'" using None by (simp add: SmartPtr_new_def)
  have hp: "heapOk s" using assms by (simp add: Inv_def)
  have "Inv ?s' \<and> destroyedIffZero s ?s'"
    by (rule smart_replace_inv [OF assms, where h = h and x = "Some nullHandle"])
       (simp_all add: setSmart_def None hp)
  then show ?thesis by (rule outcomeI [OF r])
qed

lemma Inv_heapOk: "Inv s \<Longrightarrow> heapOk s"
  by (simp add: Inv_def)

lemma alloc_of_strong:
  "refcount c = None \<or> (\<exists>a. refcount c = Some a \<and> 0 < strongOf s a) \<Longrightarrow>
   refcount c = None \<or> (\<exists>a. refcount c = Some a \<and> (0 < strongOf s a \<or> 0 < weakOf s a))"
  by auto

lemma alloc_of_weak:
  "refcount c = None \<or> (\<exists>a. refcount c = Some a \<and> 0 < weakOf s a) \<Longrightarrow>
   refcount c = None \<or> (\<exists>a. refcount c = Some a \<and> (0 < strongOf s a \<or> 0 < weakOf s a))"
  by auto

text \<open>Copy construction.\<close>

lemma SmartPtr_copy_ok:
  assumes "Inv s"
  shows "outcome s (SmartPtr_copy h other s)"
proof (cases "smart s h")
  case (Some c)
  then show ?thesis by (simp add: outcome_def SmartPtr_copy_def)
next
  case None
  show ?thesis
  proof (cases "smart s other")
    case None
    then show ?thesis using \<open>smart s h = None\<close>
      by (simp add: outcome_def SmartPtr_copy_def thenDo_def getSmart_def)
  next
    case (Some src)
    let ?s1 = "setSmart h src s"
    have h1: "heapOk ?s1" using Inv_heapOk [OF assms] by simp
    have pre: "refcount src = None \<or>
        (\<exists>a. refcount src = Some a \<and> (0 < strongOf ?s1 a \<or> 0 < weakOf ?s1 a))"
      using alloc_of_strong [OF Inv_smart_pre [OF assms Some]] by simp
    from Refcount_inc_ok [OF h1 pre]
    obtain s' where s': "Refcount_inc (refcount src) ?s1 = Inr s'" "heapOk s'" "frame ?s1 s'"
      "strongOf s' = bump (refcount src) 1 (strongOf ?s1)" "weakOf s' = weakOf ?s1" by blast
    have r: "SmartPtr_copy h other s = Inr s'"
      using None Some s'(1) by (simp add: SmartPtr_copy_def thenDo_def getSmart_def)
    have "Inv s' \<and> destroyedIffZero s s'"
    proof (rule smart_replace_inv [OF assms, where h = h and x = "Some src"])
      show "smart s' = (smart s)(h \<mapsto> src)" using s'(3) by (simp add: frame_def setSmart_def)
      show "weakp s' = weakp s" using s'(3) by (simp add: frame_def setSmart_def)
      show "strongOf s' = bump (refOf (smart s h)) (- 1) (bump (refOf (Some src)) 1 (strongOf s))"
        using s'(4) None by simp
      show "weakOf s' = weakOf s" using s'(5) by simp
      show "heapOk s'" by (rule s'(2))
      show "deleted s' = deleteEnsuringCompleteType
          (if \<exists>a. refOf (smart s h) = Some a \<and> strongOf s' a = 0 then ptrOf (smart s h) else None)
          (deleted s)" using s'(3) None by (simp add: frame_def setSmart_def)
      show "nextObject s \<le> nextObject s'" using s'(3) by (simp add: frame_def setSmart_def)
      show "\<And>k v. owned s' k = Some (Some v) \<Longrightarrow> owned s k = Some (Some v)"
        using s'(3) by (simp add: frame_def setSmart_def)
      show "origin s s' (Some src)" by (rule origin_smart [OF assms Some])
    qed
    then show ?thesis by (rule outcomeI [OF r])
  qed
qed

text \<open>Everything that goes through the two-argument reset.\<close>

lemma reset2_inv:
  assumes inv: "Inv s" and cur: "smart s this = Some cur"
    and new: "nr = None \<or> (\<exists>a. nr = Some a \<and> (0 < strongOf s a \<or> 0 < weakOf s a))"
    and org: "\<And>s'. origin s s' (Some \<lparr>ptr = nv, refcount = nr\<rparr>)"
  shows "\<exists>s'. SmartPtr_reset2 this nv nr s = Inr s' \<and> Inv s' \<and> destroyedIffZero s s' \<and>
           smart s' = (smart s)(this \<mapsto> \<lparr>ptr = nv, refcount = nr\<rparr>)"
proof -
  from SmartPtr_reset2_ok [OF Inv_heapOk [OF inv] cur Inv_smart_pre [OF inv cur] new, of nv]
  obtain s' where s': "SmartPtr_reset2 this nv nr s = Inr s'" "heapOk s'"
    "smart s' = (smart s)(this \<mapsto> \<lparr>ptr = nv, refcount = nr\<rparr>)"
    "weakp s' = weakp s" "owned s' = owned s" "nextObject s' = nextObject s"
    "strongOf s' = bump (refcount cur) (- 1) (bump nr 1 (strongOf s))" "weakOf s' = weakOf s"
    "deleted s' = deleteEnsuringCompleteType
        (if \<exists>a. refcount cur = Some a \<and> strongOf s' a = 0 then ptr cur else None) (deleted s)"
    by blast
  have "Inv s' \<and> destroyedIffZero s s'"
  proof (rule smart_replace_inv [OF inv, where h = this and x = "Some \<lparr>ptr = nv, refcount = nr\<rparr>"])
    show "smart s' = (smart s)(this \<mapsto> \<lparr>ptr = nv, refcount = nr\<rparr>)" by (rule s'(3))
    show "weakp s' = weakp s" by (rule s'(4))
    show "strongOf s' = bump (refOf (smart s this)) (- 1)
        (bump (refOf (Some \<lparr>ptr = nv, refcount = nr\<rparr>)) 1 (strongOf s))"
      using s'(7) cur by simp
    show "weakOf s' = weakOf s" by (rule s'(8))
    show "heapOk s'" by (rule s'(2))
    show "deleted s' = deleteEnsuringCompleteType
        (if \<exists>a. refOf (smart s this) = Some a \<and> strongOf s' a = 0
         then ptrOf (smart s this) else None) (deleted s)"
      unfolding s'(9) cur refOf_simps ptrOf_simps by (rule refl)
    show "nextObject s \<le> nextObject s'" using s'(6) by simp
    show "\<And>k v. owned s' k = Some (Some v) \<Longrightarrow> owned s k = Some (Some v)" using s'(5) by simp
    show "origin s s' (Some \<lparr>ptr = nv, refcount = nr\<rparr>)" by (rule org)
  qed
  then show ?thesis using s'(1,3) by blast
qed

lemma SmartPtr_assign_ok:
  assumes "Inv s"
  shows "outcome s (SmartPtr_assign h other s)"
proof (cases "smart s other")
  case None
  then show ?thesis by (simp add: outcome_def SmartPtr_assign_def thenDo_def getSmart_def)
next
  case (Some src)
  show ?thesis
  proof (cases "smart s h")
    case None
    then show ?thesis using Some
      by (simp add: outcome_def SmartPtr_assign_def SmartPtr_reset2_def thenDo_def getSmart_def)
  next
    case cur: (Some cur)
    have new: "refcount src = None \<or>
        (\<exists>a. refcount src = Some a \<and> (0 < strongOf s a \<or> 0 < weakOf s a))"
      by (rule alloc_of_strong [OF Inv_smart_pre [OF assms Some]])
    have org: "\<And>s'. origin s s' (Some \<lparr>ptr = ptr src, refcount = refcount src\<rparr>)"
      using origin_smart [OF assms Some] by simp
    from reset2_inv [OF assms cur new org]
    obtain s' where "SmartPtr_reset2 h (ptr src) (refcount src) s = Inr s'" "Inv s'"
      "destroyedIffZero s s'" by blast
    then show ?thesis using Some
      by (simp add: outcome_def SmartPtr_assign_def thenDo_def getSmart_def)
  qed
qed

lemma outcome_shift: "outcome s0 r \<Longrightarrow> smart s = smart s0 \<Longrightarrow> outcome s r"
  unfolding outcome_def destroyedIffZero_def by simp

lemma cond_delete [simp]:
  "smart (if b then deleteObject p s else s) = smart s"
  "weakp (if b then deleteObject p s else s) = weakp s"
  "owned (if b then deleteObject p s else s) = owned s"
  "nextObject (if b then deleteObject p s else s) = nextObject s"
  "nextBlock (if b then deleteObject p s else s) = nextBlock s"
  "strongOf (if b then deleteObject p s else s) = strongOf s"
  "weakOf (if b then deleteObject p s else s) = weakOf s"
  "heapOk (if b then deleteObject p s else s) = heapOk s"
  "deleted (if b then deleteObject p s else s) =
     deleteEnsuringCompleteType (if b then p else None) (deleted s)"
  by (simp_all add: deleteObject_def)

text \<open>A handle going out of scope.\<close>

lemma SmartPtr_destroy_ok:
  assumes "Inv s"
  shows "outcome s (SmartPtr_destroy h s)"
proof (cases "smart s h")
  case None
  then show ?thesis by (simp add: outcome_def SmartPtr_destroy_def thenDo_def getSmart_def)
next
  case (Some cur)
  from Refcount_dec_ok [OF Inv_heapOk [OF assms] Inv_smart_pre [OF assms Some]]
  obtain b s1 where s1: "Refcount_dec (refcount cur) s = Inr (b, s1)" "heapOk s1" "frame s s1"
    "strongOf s1 = bump (refcount cur) (- 1) (strongOf s)" "weakOf s1 = weakOf s"
    "b = (\<exists>a. refcount cur = Some a \<and> strongOf s1 a = 0)" by blast
  let ?s' = "(if b then deleteObject (ptr cur) s1 else s1)\<lparr>smart := (smart s1)(h := None)\<rparr>"
  have r: "SmartPtr_destroy h s = Inr ?s'"
    using Some s1(1) by (simp add: SmartPtr_destroy_def thenDo_def getSmart_def)
  have "Inv ?s' \<and> destroyedIffZero s ?s'"
  proof (rule smart_replace_inv [OF assms, where h = h and x = None])
    show "smart ?s' = (smart s)(h := None)" using s1(3) by (simp add: frame_def)
    show "weakp ?s' = weakp s" using s1(3) by (simp add: frame_def)
    show "strongOf ?s' = bump (refOf (smart s h)) (- 1) (bump (refOf None) 1 (strongOf s))"
      using s1(4) Some by simp
    show "weakOf ?s' = weakOf s" using s1(5) by simp
    show "heapOk ?s'" using s1(2) by simp
    show "deleted ?s' = deleteEnsuringCompleteType
        (if \<exists>a. refOf (smart s h) = Some a \<and> strongOf ?s' a = 0 then ptrOf (smart s h) else None)
        (deleted s)"
      using s1(3) unfolding s1(6) Some refOf_simps ptrOf_simps by (simp add: frame_def)
    show "nextObject s \<le> nextObject ?s'" using s1(3) by (simp add: frame_def)
    show "\<And>k v. owned ?s' k = Some (Some v) \<Longrightarrow> owned s k = Some (Some v)"
      using s1(3) by (simp add: frame_def)
    show "origin s ?s' None" by simp
  qed
  then show ?thesis by (rule outcomeI [OF r])
qed

text \<open>Emptying exclusive handles and creating objects keeps the invariant.\<close>

lemma Inv_shrink:
  assumes inv: "Inv s"
    and e1: "smart s' = smart s" and e2: "weakp s' = weakp s"
    and e3: "strongOf s' = strongOf s" and e4: "weakOf s' = weakOf s"
    and e5: "heapOk s'" and e6: "deleted s' = deleted s"
    and e7: "nextObject s \<le> nextObject s'"
    and e8: "\<And>k v. owned s' k = Some (Some v) \<Longrightarrow> owned s k = Some (Some v)"
  shows "Inv s' \<and> destroyedIffZero s s'"
proof -
  have hp: "heapOk s" and cn: "countsOk s" and ob: "objectsOk s" using inv by (simp_all add: Inv_def)
  have cn': "countsOk s'" using cn by (simp add: countsOk_def e1 e2 e3 e4)
  have dr: "(None :: Handle option) = None \<or> (\<exists>k. smart s k = None)" by blast
  have sm: "(\<exists>k'. smart s k' = Some c) \<or> Some c = None \<or> c = nullHandle"
    if t: "smart s' k = Some c" for k c
    using t unfolding e1 by blast
  have wk: "(\<exists>k'. weakp s k' = Some c) \<or> Some c = None \<or> c = nullHandle"
    if t: "weakp s' k = Some c" for k c
    using t unfolding e2 by blast
  have del: "deleted s' =
      deleteEnsuringCompleteType
        (if \<exists>a. refOf None = Some a \<and> strongOf s' a = 0 then ptrOf None else None) (deleted s)"
    using e6 by simp
  have mono: "strongOf s r \<le> strongOf s' r" if t: "refOf None \<noteq> Some r" for r
    unfolding e3 by simp
  have ox: "origin s s' None" by simp
  have oy: "originWeak s None" by simp
  from objects_step [OF hp cn ob cn' dr sm wk del mono e7 e8 ox oy]
  show ?thesis using e5 cn' by (simp add: Inv_def)
qed

lemma Inv_objects:
  assumes "Inv s"
  shows "\<And>c p. holds s c \<Longrightarrow> ptr c = Some p \<Longrightarrow> p < nextObject s"
    and "\<And>p. p \<in> set (deleted s) \<Longrightarrow> p < nextObject s"
    and "\<And>k p. owned s k = Some (Some p) \<Longrightarrow>
           p < nextObject s \<and> p \<notin> set (deleted s) \<and> (\<forall>c. holds s c \<longrightarrow> ptr c \<noteq> Some p)"
    and "\<And>k k' p. owned s k = Some (Some p) \<Longrightarrow> owned s k' = Some (Some p) \<Longrightarrow> k = k'"
proof -
  have ob: "objectsOk s" using assms by (simp add: Inv_def)
  note O = ob [unfolded objectsOk_def]
  show "\<And>c p. holds s c \<Longrightarrow> ptr c = Some p \<Longrightarrow> p < nextObject s" using O by blast
  show "\<And>p. p \<in> set (deleted s) \<Longrightarrow> p < nextObject s" using O by blast
  show "\<And>k p. owned s k = Some (Some p) \<Longrightarrow>
           p < nextObject s \<and> p \<notin> set (deleted s) \<and> (\<forall>c. holds s c \<longrightarrow> ptr c \<noteq> Some p)"
    using O by blast
  show "\<And>k k' p. owned s k = Some (Some p) \<Longrightarrow> owned s k' = Some (Some p) \<Longrightarrow> k = k'"
    using O by blast
qed

lemma origin_fresh:
  assumes "unused s v" "nextObject s' = nextObject s" "owned s' = owned s"
  shows "origin s s' (Some \<lparr>ptr = Some v, refcount = Some (nextBlock s)\<rparr>)"
  using assms unfolding origin_def unused_def by simp

text \<open>The one-argument reset: a fresh block for a non-null object, then the two-argument reset.\<close>

lemma reset1_inv:
  assumes inv: "Inv s" and nv: "nv = None \<or> (\<exists>v. nv = Some v \<and> unused s v)"
  shows "outcome s (SmartPtr_reset1 this nv s)"
proof (cases "smart s this")
  case None
  then show ?thesis
    by (cases nv)
       (simp_all add: outcome_def SmartPtr_reset1_def SmartPtr_reset2_def Refcount_new_def
          thenDo_def getSmart_def)
next
  case (Some cur)
  have hp: "heapOk s" by (rule Inv_heapOk [OF inv])
  have cn: "countsOk s" using inv by (simp add: Inv_def)
  show ?thesis
  proof (cases nv)
    case None
    have org: "\<And>s'. origin s s' (Some \<lparr>ptr = None, refcount = None\<rparr>)"
      using origin_null(1) by (simp add: nullHandle_def)
    have new: "(None :: nat option) = None \<or>
        (\<exists>a. (None :: nat option) = Some a \<and> (0 < strongOf s a \<or> 0 < weakOf s a))" by simp
    from reset2_inv [OF inv \<open>smart s this = Some cur\<close> new org]
    obtain s' where s': "SmartPtr_reset2 this None None s = Inr s'" "Inv s'"
      "destroyedIffZero s s'" "smart s' = (smart s)(this \<mapsto> \<lparr>ptr = None, refcount = None\<rparr>)"
      by auto
    have "SmartPtr_reset1 this nv s = Inr s'"
      using None s'(1,4)
      by (simp add: SmartPtr_reset1_def thenDo_def getSmart_def Refcount_dec_def)
    then show ?thesis using s'(2,3) by (simp add: outcome_def)
  next
    case (Some v)
    let ?a = "nextBlock s"
    have un: "unused s v" using nv Some by simp
    from Refcount_new_ok [OF hp]
    obtain sN where sN: "Refcount_new s = (?a, sN)" "heapOk sN" "frame s sN"
      "strongOf sN = (strongOf s)(?a := 1)" "weakOf sN = weakOf s"
      "strongOf s ?a = 0" by blast
    have cur: "smart sN this = Some cur" using sN(3) \<open>smart s this = Some cur\<close>
      by (simp add: frame_def)
    have "holds s cur" using \<open>smart s this = Some cur\<close> unfolding holds_def by blast
    then have fresh: "refcount cur \<noteq> Some ?a" by (rule fresh_block_unheld [OF hp cn])
    have pre: "refcount cur = None \<or> (\<exists>a. refcount cur = Some a \<and> 0 < strongOf sN a)"
      using Inv_smart_pre [OF inv \<open>smart s this = Some cur\<close>] fresh sN(4) by auto
    have new: "Some ?a = None \<or> (\<exists>a. Some ?a = Some a \<and> (0 < strongOf sN a \<or> 0 < weakOf sN a))"
      using sN(4) by simp
    from SmartPtr_reset2_ok [OF sN(2) cur pre new, of "Some v"]
    obtain s1 where s1: "SmartPtr_reset2 this (Some v) (Some ?a) sN = Inr s1" "heapOk s1"
      "smart s1 = (smart sN)(this \<mapsto> \<lparr>ptr = Some v, refcount = Some ?a\<rparr>)"
      "weakp s1 = weakp sN" "owned s1 = owned sN" "nextObject s1 = nextObject sN"
      "strongOf s1 = bump (refcount cur) (- 1) (bump (Some ?a) 1 (strongOf sN))"
      "weakOf s1 = weakOf sN"
      "deleted s1 = deleteEnsuringCompleteType
          (if \<exists>a. refcount cur = Some a \<and> strongOf s1 a = 0 then ptr cur else None) (deleted sN)"
      by blast
    have two: "strongOf s1 ?a = 2" unfolding s1(7) sN(4) using fresh
      by (auto simp: bump_def split: option.splits)
    then have pre1: "Some ?a = None \<or> (\<exists>a. Some ?a = Some a \<and> 0 < strongOf s1 a)" by simp
    from Refcount_dec_ok [OF s1(2) pre1]
    obtain b s2 where s2: "Refcount_dec (Some ?a) s1 = Inr (b, s2)" "heapOk s2" "frame s1 s2"
      "strongOf s2 = bump (Some ?a) (- 1) (strongOf s1)" "weakOf s2 = weakOf s1" by blast
    have r: "SmartPtr_reset1 this nv s = Inr s2"
      using Some sN(1) s1(1,3) s2(1) by (simp add: SmartPtr_reset1_def thenDo_def getSmart_def)
    have st: "strongOf s2 = bump (refcount cur) (- 1) (bump (Some ?a) 1 (strongOf s))"
      unfolding s2(4) s1(7) sN(4) using fresh sN(6)
      by (auto simp: bump_def fun_eq_iff split: option.splits)
    have same: "strongOf s1 a = strongOf s2 a" if t: "refcount cur = Some a" for a
      unfolding s2(4) using fresh t by (auto simp: bump_def)
    have "Inv s2 \<and> destroyedIffZero s s2"
    proof (rule smart_replace_inv [OF inv, where h = this
          and x = "Some \<lparr>ptr = Some v, refcount = Some ?a\<rparr>"])
      show "smart s2 = (smart s)(this \<mapsto> \<lparr>ptr = Some v, refcount = Some ?a\<rparr>)"
        using s2(3) s1(3) sN(3) by (simp add: frame_def)
      show "weakp s2 = weakp s" using s2(3) s1(4) sN(3) by (simp add: frame_def)
      show "strongOf s2 = bump (refOf (smart s this)) (- 1)
          (bump (refOf (Some \<lparr>ptr = Some v, refcount = Some ?a\<rparr>)) 1 (strongOf s))"
        using st \<open>smart s this = Some cur\<close> by simp
      show "weakOf s2 = weakOf s" using s2(5) s1(8) sN(5) by simp
      show "heapOk s2" by (rule s2(2))
      have "(\<exists>a. refcount cur = Some a \<and> strongOf s1 a = 0) =
            (\<exists>a. refcount cur = Some a \<and> strongOf s2 a = 0)" using same by auto
      then show "deleted s2 = deleteEnsuringCompleteType
          (if \<exists>a. refOf (smart s this) = Some a \<and> strongOf s2 a = 0
           then ptrOf (smart s this) else None) (deleted s)"
        using s2(3) s1(9) sN(3) unfolding \<open>smart s this = Some cur\<close> refOf_simps ptrOf_simps
        by (simp add: frame_def)
      show "nextObject s \<le> nextObject s2" using s2(3) s1(6) sN(3) by (simp add: frame_def)
      show "\<And>k v. owned s2 k = Some (Some v) \<Longrightarrow> owned s k = Some (Some v)"
        using s2(3) s1(5) sN(3) by (simp add: frame_def)
      show "origin s s2 (Some \<lparr>ptr = Some v, refcount = Some ?a\<rparr>)"
      proof (rule origin_fresh [OF un])
        show "nextObject s2 = nextObject s" using s2(3) s1(6) sN(3) by (simp add: frame_def)
        show "owned s2 = owned s" using s2(3) s1(5) sN(3) by (simp add: frame_def)
      qed
    qed
    then show ?thesis by (rule outcomeI [OF r])
  qed
qed

lemma SmartPtr_clear_ok:
  assumes "Inv s"
  shows "outcome s (SmartPtr_clear h s)"
  unfolding SmartPtr_clear_def by (rule reset1_inv [OF assms]) simp

lemma SmartPtr_allocate_ok:
  assumes "Inv s"
  shows "outcome s (SmartPtr_allocate h s)"
proof -
  let ?s0 = "s\<lparr>nextObject := Suc (nextObject s)\<rparr>"
  have i0: "Inv ?s0 \<and> destroyedIffZero s ?s0"
    by (rule Inv_shrink [OF assms]) (use Inv_heapOk [OF assms] in simp_all)
  have a: "nextObject s \<notin> set (deleted s)" using Inv_objects(2) [OF assms] by blast
  have b: "\<And>c. holds s c \<Longrightarrow> ptr c \<noteq> Some (nextObject s)"
    using Inv_objects(1) [OF assms] by blast
  have c: "\<And>k. owned s k \<noteq> Some (Some (nextObject s))"
    using Inv_objects(3) [OF assms] by blast
  have un: "unused ?s0 (nextObject s)"
    unfolding unused_def using a b c by (simp add: holds_def)
  have "outcome ?s0 (SmartPtr_reset1 h (Some (nextObject s)) ?s0)"
    by (rule reset1_inv) (use i0 un in simp_all)
  then show ?thesis unfolding SmartPtr_allocate_def by (rule outcome_shift) simp
qed

lemma SmartPtr_assignOwned_ok:
  assumes "Inv s"
  shows "outcome s (SmartPtr_assignOwned h other s)"
proof (cases "owned s other")
  case None
  then show ?thesis by (simp add: outcome_def SmartPtr_assignOwned_def thenDo_def getOwned_def)
next
  case (Some p)
  let ?s0 = "setOwned other None s"
  have i0: "Inv ?s0 \<and> destroyedIffZero s ?s0"
    by (rule Inv_shrink [OF assms])
       (use Inv_heapOk [OF assms] in \<open>simp_all add: setOwned_def split: if_splits\<close>)
  have un: "p = None \<or> (\<exists>v. p = Some v \<and> unused ?s0 v)"
  proof (cases p)
    case None
    then show ?thesis by simp
  next
    case (Some v)
    have ow: "owned s other = Some (Some v)" using \<open>owned s other = Some p\<close> Some by simp
    have "unused ?s0 v"
      unfolding unused_def using Inv_objects(3) [OF assms ow] Inv_objects(4) [OF assms ow]
      by (auto simp: holds_def setOwned_def)
    then show ?thesis using Some by simp
  qed
  have "outcome ?s0 (SmartPtr_reset1 h p ?s0)"
    by (rule reset1_inv) (use i0 un in simp_all)
  then have "outcome s (SmartPtr_reset1 h p ?s0)" by (rule outcome_shift) (simp add: setOwned_def)
  then show ?thesis using Some by (simp add: SmartPtr_assignOwned_def thenDo_def getOwned_def)
qed

lemma outcome_sub:
  assumes "outcome s0 r" "\<And>k c. smart s k = Some c \<Longrightarrow> smart s0 k = Some c"
  shows "outcome s r"
  using assms unfolding outcome_def destroyedIffZero_def by blast

lemma holds_smart: "smart s k = Some c \<Longrightarrow> holds s c"
  and holds_weak: "weakp s k = Some c \<Longrightarrow> holds s c"
  unfolding holds_def by blast+

lemma Inv_alloc:
  assumes "Inv s" "holds s c"
  shows "refcount c = None \<or> (\<exists>a. refcount c = Some a \<and> (0 < strongOf s a \<or> 0 < weakOf s a))"
  using assms(2) Inv_smart_pre [OF assms(1)] Inv_weak_pre [OF assms(1)]
  unfolding holds_def by (elim disjE exE) blast+

text \<open>Taking over the object of an exclusive handle.\<close>

lemma SmartPtr_fromOwned_ok:
  assumes "Inv s"
  shows "outcome s (SmartPtr_fromOwned h other s)"
proof (cases "smart s h")
  case (Some c)
  then show ?thesis by (simp add: outcome_def SmartPtr_fromOwned_def)
next
  case None
  have hp: "heapOk s" by (rule Inv_heapOk [OF assms])
  show ?thesis
  proof (cases "owned s other")
    case None
    then show ?thesis using \<open>smart s h = None\<close>
      by (simp add: outcome_def SmartPtr_fromOwned_def thenDo_def getOwned_def)
  next
    case (Some p)
    let ?s1 = "setOwned other None s"
    show ?thesis
    proof (cases p)
      case None
      let ?s' = "setSmart h nullHandle ?s1"
      have r: "SmartPtr_fromOwned h other s = Inr ?s'"
        using None Some \<open>smart s h = None\<close>
        by (simp add: SmartPtr_fromOwned_def thenDo_def getOwned_def)
      have "Inv ?s' \<and> destroyedIffZero s ?s'"
        by (rule smart_replace_inv [OF assms, where h = h and x = "Some nullHandle"])
           (use hp \<open>smart s h = None\<close> in
             \<open>simp_all add: setSmart_def setOwned_def split: if_splits\<close>)
      then show ?thesis by (rule outcomeI [OF r])
    next
      case (Some v)
      let ?a = "nextBlock s"
      have ow: "owned s other = Some (Some v)" using \<open>owned s other = Some p\<close> Some by simp
      have h1: "heapOk ?s1" using hp by simp
      have nb: "nextBlock ?s1 = ?a" by (simp add: setOwned_def)
      from Refcount_new_ok [OF h1]
      obtain s2 where s2: "Refcount_new ?s1 = (?a, s2)" "heapOk s2" "frame ?s1 s2"
        "strongOf s2 = (strongOf s)(?a := 1)" "weakOf s2 = weakOf s"
        "strongOf s ?a = 0" unfolding nb by auto
      let ?s' = "setSmart h \<lparr>ptr = Some v, refcount = Some ?a\<rparr> s2"
      have r: "SmartPtr_fromOwned h other s = Inr ?s'"
        using Some ow \<open>smart s h = None\<close> s2(1)
        by (simp add: SmartPtr_fromOwned_def thenDo_def getOwned_def)
      have "Inv ?s' \<and> destroyedIffZero s ?s'"
      proof (rule smart_replace_inv [OF assms, where h = h
            and x = "Some \<lparr>ptr = Some v, refcount = Some ?a\<rparr>"])
        show "smart ?s' = (smart s)(h \<mapsto> \<lparr>ptr = Some v, refcount = Some ?a\<rparr>)"
          using s2(3) by (simp add: frame_def setSmart_def setOwned_def)
        show "weakp ?s' = weakp s" using s2(3) by (simp add: frame_def setSmart_def setOwned_def)
        show "strongOf ?s' = bump (refOf (smart s h)) (- 1)
            (bump (refOf (Some \<lparr>ptr = Some v, refcount = Some ?a\<rparr>)) 1 (strongOf s))"
          using s2(4,6) \<open>smart s h = None\<close> by (simp add: bump_def)
        show "weakOf ?s' = weakOf s" using s2(5) by simp
        show "heapOk ?s'" using s2(2) by simp
        show "deleted ?s' = deleteEnsuringCompleteType
            (if \<exists>a. refOf (smart s h) = Some a \<and> strongOf ?s' a = 0
             then ptrOf (smart s h) else None) (deleted s)"
          using s2(3) \<open>smart s h = None\<close> by (simp add: frame_def setSmart_def setOwned_def)
        show "nextObject s \<le> nextObject ?s'"
          using s2(3) by (simp add: frame_def setSmart_def setOwned_def)
        show "\<And>k v. owned ?s' k = Some (Some v) \<Longrightarrow> owned s k = Some (Some v)"
          using s2(3) by (simp add: frame_def setSmart_def setOwned_def split: if_splits)
        have o': "owned ?s' = (owned s)(other \<mapsto> None)" "nextObject ?s' = nextObject s"
          using s2(3) by (simp_all add: frame_def setSmart_def setOwned_def)
        have "\<And>k. owned ?s' k \<noteq> Some (Some v)"
          unfolding o' using Inv_objects(4) [OF assms ow] by auto
        then show "origin s ?s' (Some \<lparr>ptr = Some v, refcount = Some ?a\<rparr>)"
          unfolding origin_def using Inv_objects(3) [OF assms ow] o'(2) by simp
      qed
      then show ?thesis by (rule outcomeI [OF r])
    qed
  qed
qed

text \<open>Moving a reference from one handle to another changes no count but that of the block
  the target let go of.\<close>

lemma counts_after_transfer:
  assumes cn: "countsOk s" and ne: "this \<noteq> other" and src: "smart s other = Some src"
    and e1: "smart s' = (smart s)(this \<mapsto> src, other \<mapsto> nullHandle)"
    and e2: "weakp s' = weakp s"
    and e3: "strongOf s' = bump (refOf (smart s this)) (- 1) (strongOf s)"
    and e4: "weakOf s' = weakOf s"
  shows "countsOk s'"
proof -
  let ?t1 = "(smart s)(this \<mapsto> src)"
  have fin: "finite (dom (smart s))" using cn by (simp add: countsOk_def)
  have fin1: "finite (dom ?t1)" using fin by simp
  have fin': "finite (dom (smart s'))" unfolding e1 using fin by simp
  have o1: "?t1 other = Some src" using ne src by simp
  have "int (refs (smart s') r) = strongOf s' r" for r
  proof -
    have "int (refs (smart s') r) =
        int (refs ?t1 r) - (if refOf (?t1 other) = Some r then 1 else 0)
          + (if refOf (Some nullHandle) = Some r then 1 else 0)"
      unfolding e1 by (rule refs_upd_gen [OF fin1])
    also have "int (refs ?t1 r) =
        int (refs (smart s) r) - (if refOf (smart s this) = Some r then 1 else 0)
          + (if refOf (Some src) = Some r then 1 else 0)"
      by (rule refs_upd_gen [OF fin])
    finally have "int (refs (smart s') r) =
        int (refs (smart s) r) - (if refOf (smart s this) = Some r then 1 else 0)"
      unfolding o1 by simp
    moreover have "strongOf s r = int (refs (smart s) r)" using cn by (simp add: countsOk_def)
    ultimately show ?thesis unfolding e3 by (auto simp: bump_def split: option.splits)
  qed
  then show ?thesis using cn fin' by (simp add: countsOk_def e2 e4)
qed

lemma transfer_inv:
  assumes inv: "Inv s" and ne: "this \<noteq> other" and src: "smart s other = Some src"
    and e1: "smart s' = (smart s)(this \<mapsto> src, other \<mapsto> nullHandle)"
    and e2: "weakp s' = weakp s"
    and e3: "strongOf s' = bump (refOf (smart s this)) (- 1) (strongOf s)"
    and e4: "weakOf s' = weakOf s"
    and e5: "heapOk s'"
    and e6: "deleted s' =
               deleteEnsuringCompleteType
                 (if \<exists>a. refOf (smart s this) = Some a \<and> strongOf s' a = 0
                  then ptrOf (smart s this) else None)
                 (deleted s)"
    and e7: "nextObject s \<le> nextObject s'"
    and e8: "\<And>k v. owned s' k = Some (Some v) \<Longrightarrow> owned s k = Some (Some v)"
  shows "Inv s' \<and> destroyedIffZero s s'"
proof -
  have hp: "heapOk s" and cn: "countsOk s" and ob: "objectsOk s" using inv by (simp_all add: Inv_def)
  have cn': "countsOk s'" by (rule counts_after_transfer [OF cn ne src e1 e2 e3 e4])
  have dr: "smart s this = None \<or> (\<exists>k. smart s k = smart s this)" by blast
  have sm: "(\<exists>k'. smart s k' = Some c) \<or> Some c = None \<or> c = nullHandle"
    if t: "smart s' k = Some c" for k c
  proof (cases "k = other")
    case True
    then show ?thesis using t unfolding e1 by simp
  next
    case False
    show ?thesis
    proof (cases "k = this")
      case True
      then have "c = src" using t ne unfolding e1 by simp
      then show ?thesis using src by blast
    next
      case False
      then show ?thesis using t \<open>k \<noteq> other\<close> unfolding e1 by auto
    qed
  qed
  have wk: "(\<exists>k'. weakp s k' = Some c) \<or> Some c = None \<or> c = nullHandle"
    if t: "weakp s' k = Some c" for k c
    using t unfolding e2 by blast
  have mono: "strongOf s r \<le> strongOf s' r" if t: "refOf (smart s this) \<noteq> Some r" for r
    unfolding e3 using t by (auto simp: bump_def split: option.splits)
  have ox: "origin s s' None" by simp
  have oy: "originWeak s None" by simp
  from objects_step [OF hp cn ob cn' dr sm wk e6 mono e7 e8 ox oy]
  show ?thesis using e5 cn' by (simp add: Inv_def)
qed

lemma SmartPtr_move_ok:
  assumes "Inv s"
  shows "outcome s (SmartPtr_move h other s)"
proof (cases "smart s h")
  case (Some c)
  then show ?thesis by (simp add: outcome_def SmartPtr_move_def)
next
  case None
  show ?thesis
  proof (cases "smart s other")
    case None
    then show ?thesis using \<open>smart s h = None\<close>
      by (simp add: outcome_def SmartPtr_move_def thenDo_def getSmart_def)
  next
    case (Some src)
    have ne: "h \<noteq> other" using Some None by auto
    let ?s' = "setSmart other nullHandle (setSmart h src s)"
    have r: "SmartPtr_move h other s = Inr ?s'"
      using None Some by (simp add: SmartPtr_move_def thenDo_def getSmart_def)
    have "Inv ?s' \<and> destroyedIffZero s ?s'"
      by (rule transfer_inv [OF assms ne Some])
         (use None Inv_heapOk [OF assms] in \<open>simp_all add: setSmart_def\<close>)
    then show ?thesis by (rule outcomeI [OF r])
  qed
qed

lemma SmartPtr_moveAssign_ok:
  assumes "Inv s"
  shows "outcome s (SmartPtr_moveAssign h other s)"
proof (cases "smart s other")
  case None
  then show ?thesis by (simp add: outcome_def SmartPtr_moveAssign_def thenDo_def getSmart_def)
next
  case (Some src)
  have hp: "heapOk s" by (rule Inv_heapOk [OF assms])
  let ?s1 = "setSmart other nullHandle s"
  have h1: "heapOk ?s1" using hp by simp
  have new: "(None :: nat option) = None \<or>
      (\<exists>a. (None :: nat option) = Some a \<and> (0 < strongOf ?s1 a \<or> 0 < weakOf ?s1 a))" by simp
  show ?thesis
  proof (cases "smart ?s1 h")
    case None
    then show ?thesis using Some
      by (simp add: outcome_def SmartPtr_moveAssign_def SmartPtr_reset2_def thenDo_def
            getSmart_def Let_def)
  next
    case cur: (Some cur)
    have pre: "refcount cur = None \<or> (\<exists>a. refcount cur = Some a \<and> 0 < strongOf ?s1 a)"
    proof (cases "h = other")
      case True
      then show ?thesis using cur by (simp add: setSmart_def)
    next
      case False
      then have "smart s h = Some cur" using cur by (simp add: setSmart_def)
      from Inv_smart_pre [OF assms this] show ?thesis by simp
    qed
    from SmartPtr_reset2_ok [OF h1 cur pre new, of None]
    obtain s2 where s2: "SmartPtr_reset2 h None None ?s1 = Inr s2" "heapOk s2"
      "smart s2 = (smart ?s1)(h \<mapsto> \<lparr>ptr = None, refcount = None\<rparr>)"
      "weakp s2 = weakp ?s1" "owned s2 = owned ?s1" "nextObject s2 = nextObject ?s1"
      "strongOf s2 = bump (refcount cur) (- 1) (bump None 1 (strongOf ?s1))"
      "weakOf s2 = weakOf ?s1"
      "deleted s2 = deleteEnsuringCompleteType
          (if \<exists>a. refcount cur = Some a \<and> strongOf s2 a = 0 then ptr cur else None)
          (deleted ?s1)"
      by blast
    let ?s' = "setSmart h src s2"
    have r: "SmartPtr_moveAssign h other s = Inr ?s'"
      using Some s2(1) by (simp add: SmartPtr_moveAssign_def thenDo_def getSmart_def Let_def)
    have "Inv ?s' \<and> destroyedIffZero s ?s'"
    proof (cases "h = other")
      case True
      have c: "cur = nullHandle" using cur True by (simp add: setSmart_def)
      show ?thesis
      proof (rule Inv_shrink [OF assms])
        show "smart ?s' = smart s" using s2(3) True Some by (auto simp: setSmart_def fun_eq_iff)
        show "weakp ?s' = weakp s" using s2(4) by (simp add: setSmart_def)
        show "strongOf ?s' = strongOf s" using s2(7) c by simp
        show "weakOf ?s' = weakOf s" using s2(8) by simp
        show "heapOk ?s'" using s2(2) by simp
        show "deleted ?s' = deleted s" using s2(9) c by (simp add: setSmart_def)
        show "nextObject s \<le> nextObject ?s'" using s2(6) by (simp add: setSmart_def)
        show "\<And>k v. owned ?s' k = Some (Some v) \<Longrightarrow> owned s k = Some (Some v)"
          using s2(5) by (simp add: setSmart_def)
      qed
    next
      case False
      then have c: "smart s h = Some cur" using cur by (simp add: setSmart_def)
      show ?thesis
      proof (rule transfer_inv [OF assms False Some])
        show "smart ?s' = (smart s)(h \<mapsto> src, other \<mapsto> nullHandle)"
          using s2(3) False by (auto simp: setSmart_def fun_eq_iff)
        show "weakp ?s' = weakp s" using s2(4) by (simp add: setSmart_def)
        show "strongOf ?s' = bump (refOf (smart s h)) (- 1) (strongOf s)" using s2(7) c by simp
        show "weakOf ?s' = weakOf s" using s2(8) by simp
        show "heapOk ?s'" using s2(2) by simp
        show "deleted ?s' = deleteEnsuringCompleteType
            (if \<exists>a. refOf (smart s h) = Some a \<and> strongOf ?s' a = 0
             then ptrOf (smart s h) else None) (deleted s)"
          using s2(9) unfolding c refOf_simps ptrOf_simps by (simp add: setSmart_def)
        show "nextObject s \<le> nextObject ?s'" using s2(6) by (simp add: setSmart_def)
        show "\<And>k v. owned ?s' k = Some (Some v) \<Longrightarrow> owned s k = Some (Some v)"
          using s2(5) by (simp add: setSmart_def)
      qed
    qed
    then show ?thesis by (rule outcomeI [OF r])
  qed
qed

lemma Refcount_isLive_ok:
  assumes "heapOk s" "r = None \<or> (\<exists>a. r = Some a \<and> (0 < strongOf s a \<or> 0 < weakOf s a))"
  shows "Refcount_isLive r s = Inr (\<exists>a. r = Some a \<and> 0 < strongOf s a)"
proof (cases r)
  case None
  then show ?thesis by (simp add: Refcount_isLive_def)
next
  case (Some a)
  then obtain rc where rc: "blocks s a = Some rc" using assms
    by (auto simp: strongOf_def weakOf_def split: option.splits)
  then show ?thesis using Some by (simp add: Refcount_isLive_def strongOf_def)
qed

text \<open>Upgrading a weak reference.\<close>

lemma WeakPtr_toSmart_ok:
  assumes "Inv s"
  shows "outcome s (WeakPtr_toSmart w h s)"
proof (cases "smart s h")
  case (Some c)
  then show ?thesis by (simp add: outcome_def WeakPtr_toSmart_def)
next
  case None
  show ?thesis
  proof (cases "weakp s w")
    case None
    then show ?thesis using \<open>smart s h = None\<close>
      by (simp add: outcome_def WeakPtr_toSmart_def thenDo_def getWeak_def)
  next
    case (Some cur)
    let ?s1 = "setSmart h nullHandle s"
    have i1: "Inv ?s1 \<and> destroyedIffZero s ?s1"
      by (rule smart_replace_inv [OF assms, where h = h and x = "Some nullHandle"])
         (use None Inv_heapOk [OF assms] in \<open>simp_all add: setSmart_def\<close>)
    then have inv1: "Inv ?s1" by simp
    have w1: "weakp ?s1 w = Some cur" using Some by (simp add: setSmart_def)
    have al: "refcount cur = None \<or>
        (\<exists>a. refcount cur = Some a \<and> (0 < strongOf ?s1 a \<or> 0 < weakOf ?s1 a))"
      by (rule Inv_alloc [OF inv1 holds_weak [OF w1]])
    have live: "Refcount_isLive (refcount cur) ?s1 =
        Inr (\<exists>a. refcount cur = Some a \<and> 0 < strongOf ?s1 a)"
      by (rule Refcount_isLive_ok [OF Inv_heapOk [OF inv1] al])
    show ?thesis
    proof (cases "\<exists>a. refcount cur = Some a \<and> 0 < strongOf ?s1 a")
      case False
      then have "WeakPtr_toSmart w h s = Inr ?s1"
        using None Some live by (auto simp: WeakPtr_toSmart_def thenDo_def getWeak_def Let_def)
      then show ?thesis using i1 by (simp add: outcome_def)
    next
      case True
      have c1: "smart ?s1 h = Some nullHandle" by (simp add: setSmart_def)
      have org: "\<And>s'. origin ?s1 s' (Some \<lparr>ptr = ptr cur, refcount = refcount cur\<rparr>)"
        unfolding origin_def using holds_weak [OF w1] True by auto
      from reset2_inv [OF inv1 c1 al org]
      obtain s' where s': "SmartPtr_reset2 h (ptr cur) (refcount cur) ?s1 = Inr s'" "Inv s'"
        "destroyedIffZero ?s1 s'" by blast
      have "outcome ?s1 (SmartPtr_reset2 h (ptr cur) (refcount cur) ?s1)"
        using s' by (simp add: outcome_def)
      then have "outcome s (SmartPtr_reset2 h (ptr cur) (refcount cur) ?s1)"
        by (rule outcome_sub) (use None in \<open>auto simp: setSmart_def\<close>)
      moreover have "WeakPtr_toSmart w h s = SmartPtr_reset2 h (ptr cur) (refcount cur) ?s1"
        using None Some live True
        by (auto simp: WeakPtr_toSmart_def thenDo_def getWeak_def Let_def)
      ultimately show ?thesis by simp
    qed
  qed
qed

text \<open>Weak references.\<close>

lemma WeakPtr_new_ok:
  assumes "Inv s"
  shows "outcome s (WeakPtr_new w s)"
proof (cases "weakp s w")
  case (Some c)
  then show ?thesis by (simp add: outcome_def WeakPtr_new_def)
next
  case None
  let ?s' = "setWeak w nullHandle s"
  have r: "WeakPtr_new w s = Inr ?s'" using None by (simp add: WeakPtr_new_def)
  have "Inv ?s' \<and> destroyedIffZero s ?s'"
    by (rule weak_replace_inv [OF assms, where h = w and y = "Some nullHandle"])
       (use None Inv_heapOk [OF assms] in \<open>simp_all add: setWeak_def\<close>)
  then show ?thesis by (rule outcomeI [OF r])
qed

lemma weak_attach:
  assumes inv: "Inv s" and fresh: "weakp s w = None" and src: "holds s src"
  shows "outcome s (Refcount_incWeak (refcount src) (setWeak w src s))"
proof -
  let ?s1 = "setWeak w src s"
  have h1: "heapOk ?s1" using Inv_heapOk [OF inv] by simp
  have al: "refcount src = None \<or>
      (\<exists>a. refcount src = Some a \<and> (0 < strongOf ?s1 a \<or> 0 < weakOf ?s1 a))"
    using Inv_alloc [OF inv src] by simp
  from Refcount_incWeak_ok [OF h1 al]
  obtain s' where s': "Refcount_incWeak (refcount src) ?s1 = Inr s'" "heapOk s'" "frame ?s1 s'"
    "weakOf s' = bump (refcount src) 1 (weakOf ?s1)" "strongOf s' = strongOf ?s1" by blast
  have "Inv s' \<and> destroyedIffZero s s'"
  proof (rule weak_replace_inv [OF inv, where h = w and y = "Some src"])
    show "weakp s' = (weakp s)(w \<mapsto> src)" using s'(3) by (simp add: frame_def setWeak_def)
    show "smart s' = smart s" using s'(3) by (simp add: frame_def setWeak_def)
    show "weakOf s' = bump (refOf (weakp s w)) (- 1) (bump (refOf (Some src)) 1 (weakOf s))"
      using s'(4) fresh by simp
    show "strongOf s' = strongOf s" using s'(5) by simp
    show "heapOk s'" by (rule s'(2))
    show "deleted s' = deleted s" using s'(3) by (simp add: frame_def setWeak_def)
    show "nextObject s' = nextObject s" using s'(3) by (simp add: frame_def setWeak_def)
    show "owned s' = owned s" using s'(3) by (simp add: frame_def setWeak_def)
    show "originWeak s (Some src)" unfolding originWeak_def using src by simp
  qed
  then show ?thesis by (rule outcomeI [OF s'(1)])
qed

lemma WeakPtr_copy_ok:
  assumes "Inv s"
  shows "outcome s (WeakPtr_copy w other s)"
proof (cases "weakp s w")
  case (Some c)
  then show ?thesis by (simp add: outcome_def WeakPtr_copy_def)
next
  case None
  show ?thesis
  proof (cases "weakp s other")
    case None
    then show ?thesis using \<open>weakp s w = None\<close>
      by (simp add: outcome_def WeakPtr_copy_def thenDo_def getWeak_def)
  next
    case (Some src)
    from weak_attach [OF assms None holds_weak [OF Some]]
    show ?thesis using None Some by (simp add: WeakPtr_copy_def thenDo_def getWeak_def)
  qed
qed

lemma WeakPtr_fromSmart_ok:
  assumes "Inv s"
  shows "outcome s (WeakPtr_fromSmart w other s)"
proof (cases "weakp s w")
  case (Some c)
  then show ?thesis by (simp add: outcome_def WeakPtr_fromSmart_def)
next
  case None
  show ?thesis
  proof (cases "smart s other")
    case None
    then show ?thesis using \<open>weakp s w = None\<close>
      by (simp add: outcome_def WeakPtr_fromSmart_def thenDo_def getSmart_def)
  next
    case (Some src)
    from weak_attach [OF assms None holds_smart [OF Some]]
    show ?thesis using None Some by (simp add: WeakPtr_fromSmart_def thenDo_def getSmart_def)
  qed
qed

lemma WeakPtr_set_ok:
  assumes inv: "Inv s" and src: "holds s src"
  shows "outcome s (WeakPtr_set w src s)"
proof (cases "weakp s w")
  case None
  then show ?thesis by (simp add: outcome_def WeakPtr_set_def thenDo_def getWeak_def)
next
  case (Some cur)
  let ?s1 = "setWeak w src s"
  have h1: "heapOk ?s1" using Inv_heapOk [OF inv] by simp
  have al: "refcount src = None \<or>
      (\<exists>a. refcount src = Some a \<and> (0 < strongOf ?s1 a \<or> 0 < weakOf ?s1 a))"
    using Inv_alloc [OF inv src] by simp
  from Refcount_incWeak_ok [OF h1 al]
  obtain s2 where s2: "Refcount_incWeak (refcount src) ?s1 = Inr s2" "heapOk s2" "frame ?s1 s2"
    "weakOf s2 = bump (refcount src) 1 (weakOf ?s1)" "strongOf s2 = strongOf ?s1" by blast
  have pre: "refcount cur = None \<or> (\<exists>a. refcount cur = Some a \<and> 0 < weakOf s2 a)"
    using Inv_weak_pre [OF inv Some] unfolding s2(4)
    by (auto simp: bump_def split: option.splits)
  from Refcount_decWeak_ok [OF s2(2) pre]
  obtain s' where s': "Refcount_decWeak (refcount cur) s2 = Inr s'" "heapOk s'" "frame s2 s'"
    "weakOf s' = bump (refcount cur) (- 1) (weakOf s2)" "strongOf s' = strongOf s2" by blast
  have r: "WeakPtr_set w src s = Inr s'"
    using Some s2(1) s'(1) by (simp add: WeakPtr_set_def thenDo_def getWeak_def Let_def)
  have "Inv s' \<and> destroyedIffZero s s'"
  proof (rule weak_replace_inv [OF inv, where h = w and y = "Some src"])
    show "weakp s' = (weakp s)(w \<mapsto> src)" using s'(3) s2(3) by (simp add: frame_def setWeak_def)
    show "smart s' = smart s" using s'(3) s2(3) by (simp add: frame_def setWeak_def)
    show "weakOf s' = bump (refOf (weakp s w)) (- 1) (bump (refOf (Some src)) 1 (weakOf s))"
      using s'(4) s2(4) Some by simp
    show "strongOf s' = strongOf s" using s'(5) s2(5) by simp
    show "heapOk s'" by (rule s'(2))
    show "deleted s' = deleted s" using s'(3) s2(3) by (simp add: frame_def setWeak_def)
    show "nextObject s' = nextObject s" using s'(3) s2(3) by (simp add: frame_def setWeak_def)
    show "owned s' = owned s" using s'(3) s2(3) by (simp add: frame_def setWeak_def)
    show "originWeak s (Some src)" unfolding originWeak_def using src by simp
  qed
  then show ?thesis by (rule outcomeI [OF r])
qed

lemma WeakPtr_assign_ok:
  assumes "Inv s"
  shows "outcome s (WeakPtr_assign w other s)"
proof (cases "weakp s other")
  case None
  then show ?thesis by (simp add: outcome_def WeakPtr_assign_def thenDo_def getWeak_def)
next
  case (Some src)
  from WeakPtr_set_ok [OF assms holds_weak [OF Some]]
  show ?thesis using Some by (simp add: WeakPtr_assign_def thenDo_def getWeak_def)
qed

lemma WeakPtr_assignSmart_ok:
  assumes "Inv s"
  shows "outcome s (WeakPtr_assignSmart w other s)"
proof (cases "smart s other")
  case None
  then show ?thesis by (simp add: outcome_def WeakPtr_assignSmart_def thenDo_def getSmart_def)
next
  case (Some src)
  from WeakPtr_set_ok [OF assms holds_smart [OF Some]]
  show ?thesis using Some by (simp add: WeakPtr_assignSmart_def thenDo_def getSmart_def)
qed

lemma weak_drop:
  assumes inv: "Inv s" and cur: "weakp s w = Some cur"
  shows "\<exists>s1. Refcount_decWeak (refcount cur) s = Inr s1 \<and>
           (\<forall>y. y = None \<or> y = Some nullHandle \<longrightarrow>
              Inv (s1\<lparr>weakp := (weakp s1)(w := y)\<rparr>) \<and>
              destroyedIffZero s (s1\<lparr>weakp := (weakp s1)(w := y)\<rparr>))"
proof -
  from Refcount_decWeak_ok [OF Inv_heapOk [OF inv] Inv_weak_pre [OF inv cur]]
  obtain s1 where s1: "Refcount_decWeak (refcount cur) s = Inr s1" "heapOk s1" "frame s s1"
    "weakOf s1 = bump (refcount cur) (- 1) (weakOf s)" "strongOf s1 = strongOf s" by blast
  have "Inv (s1\<lparr>weakp := (weakp s1)(w := y)\<rparr>) \<and>
        destroyedIffZero s (s1\<lparr>weakp := (weakp s1)(w := y)\<rparr>)"
    if t: "y = None \<or> y = Some nullHandle" for y
  proof (rule weak_replace_inv [OF inv, where h = w and y = y])
    let ?s' = "s1\<lparr>weakp := (weakp s1)(w := y)\<rparr>"
    show "weakp ?s' = (weakp s)(w := y)" using s1(3) by (simp add: frame_def)
    show "smart ?s' = smart s" using s1(3) by (simp add: frame_def)
    show "weakOf ?s' = bump (refOf (weakp s w)) (- 1) (bump (refOf y) 1 (weakOf s))"
      using s1(4) cur t by auto
    show "strongOf ?s' = strongOf s" using s1(5) by simp
    show "heapOk ?s'" using s1(2) by simp
    show "deleted ?s' = deleted s" using s1(3) by (simp add: frame_def)
    show "nextObject ?s' = nextObject s" using s1(3) by (simp add: frame_def)
    show "owned ?s' = owned s" using s1(3) by (simp add: frame_def)
    show "originWeak s y" using t by auto
  qed
  then show ?thesis using s1(1) by blast
qed

lemma WeakPtr_destroy_ok:
  assumes "Inv s"
  shows "outcome s (WeakPtr_destroy w s)"
proof (cases "weakp s w")
  case None
  then show ?thesis by (simp add: outcome_def WeakPtr_destroy_def thenDo_def getWeak_def)
next
  case (Some cur)
  from weak_drop [OF assms Some]
  obtain s1 where s1: "Refcount_decWeak (refcount cur) s = Inr s1"
    "Inv (s1\<lparr>weakp := (weakp s1)(w := None)\<rparr>) \<and>
     destroyedIffZero s (s1\<lparr>weakp := (weakp s1)(w := None)\<rparr>)" by blast
  then show ?thesis using Some
    by (simp add: outcome_def WeakPtr_destroy_def thenDo_def getWeak_def)
qed

lemma WeakPtr_assignNull_ok:
  assumes "Inv s"
  shows "outcome s (WeakPtr_assignNull w s)"
proof (cases "weakp s w")
  case None
  then show ?thesis by (simp add: outcome_def WeakPtr_assignNull_def thenDo_def getWeak_def)
next
  case (Some cur)
  from weak_drop [OF assms Some]
  obtain s1 where s1: "Refcount_decWeak (refcount cur) s = Inr s1"
    "Inv (s1\<lparr>weakp := (weakp s1)(w := Some nullHandle)\<rparr>) \<and>
     destroyedIffZero s (s1\<lparr>weakp := (weakp s1)(w := Some nullHandle)\<rparr>)" by blast
  then show ?thesis using Some
    by (simp add: outcome_def WeakPtr_assignNull_def thenDo_def getWeak_def setWeak_def)
qed

text \<open>Exclusive handle variables.\<close>

lemma OwnedPtr_new_ok:
  assumes "Inv s"
  shows "outcome s (OwnedPtr_new p s)"
proof (cases "owned s p")
  case (Some c)
  then show ?thesis by (simp add: outcome_def OwnedPtr_new_def)
next
  case None
  let ?s' = "setOwned p None s"
  have r: "OwnedPtr_new p s = Inr ?s'" using None by (simp add: OwnedPtr_new_def)
  have "Inv ?s' \<and> destroyedIffZero s ?s'"
    by (rule Inv_shrink [OF assms])
       (use Inv_heapOk [OF assms] in \<open>simp_all add: setOwned_def split: if_splits\<close>)
  then show ?thesis by (rule outcomeI [OF r])
qed

lemma Inv_owned_add:
  assumes inv: "Inv s" and un: "unused s v"
  shows "Inv (setOwned k (Some v) s)"
proof -
  let ?s' = "setOwned k (Some v) s"
  have hp: "heapOk s" and cn: "countsOk s" and ob: "objectsOk s" using inv by (simp_all add: Inv_def)
  note O = ob [unfolded objectsOk_def]
  have hs: "holds ?s' c = holds s c" for c by (simp add: holds_def setOwned_def)
  have dl: "deleted ?s' = deleted s" and no: "nextObject ?s' = nextObject s"
    and sm: "smart ?s' = smart s"
    by (simp_all add: setOwned_def)
  have ow: "owned ?s' k' = Some (Some p) \<longleftrightarrow> (if k' = k then p = v else owned s k' = Some (Some p))"
    for k' p by (auto simp: setOwned_def)
  have u1: "v < nextObject s" and u2: "v \<notin> set (deleted s)"
    and u3: "\<And>c. holds s c \<Longrightarrow> ptr c \<noteq> Some v" and u4: "\<And>k. owned s k \<noteq> Some (Some v)"
    using un unfolding unused_def by blast+
  have G: "\<And>k p. owned s k = Some (Some p) \<Longrightarrow>
             p < nextObject s \<and> p \<notin> set (deleted s) \<and> (\<forall>c. holds s c \<longrightarrow> ptr c \<noteq> Some p)"
    using O by blast
  have H: "\<And>k k' p. owned s k = Some (Some p) \<Longrightarrow> owned s k' = Some (Some p) \<Longrightarrow> k = k'"
    using O by blast
  have G': "p < nextObject s \<and> p \<notin> set (deleted s) \<and> (\<forall>c. holds s c \<longrightarrow> ptr c \<noteq> Some p)"
    if t: "owned ?s' k' = Some (Some p)" for k' p
  proof (cases "k' = k")
    case True
    then have "p = v" using t ow by simp
    then show ?thesis using u1 u2 u3 by blast
  next
    case False
    then have "owned s k' = Some (Some p)" using t ow by simp
    then show ?thesis by (rule G)
  qed
  have H': "k1 = k2" if t: "owned ?s' k1 = Some (Some p)" "owned ?s' k2 = Some (Some p)"
    for k1 k2 p
  proof (cases "k1 = k")
    case True
    then have p: "p = v" using t(1) ow by simp
    have "k2 = k"
    proof (rule ccontr)
      assume "k2 \<noteq> k"
      then have "owned s k2 = Some (Some v)" using t(2) ow p by simp
      then show False using u4 by blast
    qed
    then show ?thesis using True by simp
  next
    case False
    then have o1: "owned s k1 = Some (Some p)" using t(1) ow by simp
    have "k2 \<noteq> k"
    proof
      assume "k2 = k"
      then have "p = v" using t(2) ow by simp
      then show False using o1 u4 by blast
    qed
    then have "owned s k2 = Some (Some p)" using t(2) ow by simp
    then show ?thesis by (rule H [OF o1])
  qed
  have "objectsOk ?s'"
    unfolding objectsOk_def hs dl no sm
  proof (intro conjI allI impI ballI)
    fix c assume "holds s c" then show "(ptr c = None) = (refcount c = None)" using O by blast
  next
    fix c c' assume "holds s c" "holds s c'"
    then show "(ptr c = ptr c') = (refcount c = refcount c')" using O by blast
  next
    fix c p assume "holds s c" "ptr c = Some p" then show "p < nextObject s" using O by blast
  next
    fix k c p assume "smart s k = Some c" "ptr c = Some p"
    then show "p \<notin> set (deleted s)" using O by blast
  next
    show "distinct (deleted s)" using O by blast
  next
    fix p assume "p \<in> set (deleted s)" then show "p < nextObject s" using O by blast
  next
    fix k' p assume o: "owned ?s' k' = Some (Some p)"
    show "p < nextObject s" using G' [OF o] by blast
    show "p \<notin> set (deleted s)" using G' [OF o] by blast
    fix c assume "holds s c" then show "ptr c \<noteq> Some p" using G' [OF o] by blast
  next
    fix k1 k2 p assume "owned ?s' k1 = Some (Some p)" "owned ?s' k2 = Some (Some p)"
    then show "k1 = k2" by (rule H')
  qed
  moreover have "countsOk ?s'" using cn by (simp add: countsOk_def setOwned_def)
  ultimately show ?thesis using hp by (simp add: Inv_def)
qed

lemma OwnedPtr_newOwned_ok:
  assumes "Inv s"
  shows "outcome s (OwnedPtr_newOwned p s)"
proof (cases "owned s p")
  case (Some c)
  then show ?thesis by (simp add: outcome_def OwnedPtr_newOwned_def)
next
  case None
  let ?s0 = "s\<lparr>nextObject := Suc (nextObject s)\<rparr>"
  let ?s' = "setOwned p (Some (nextObject s)) ?s0"
  have r: "OwnedPtr_newOwned p s = Inr ?s'" using None by (simp add: OwnedPtr_newOwned_def)
  have i0: "Inv ?s0 \<and> destroyedIffZero s ?s0"
    by (rule Inv_shrink [OF assms]) (use Inv_heapOk [OF assms] in simp_all)
  have a: "nextObject s \<notin> set (deleted s)" using Inv_objects(2) [OF assms] by blast
  have b: "\<And>c. holds s c \<Longrightarrow> ptr c \<noteq> Some (nextObject s)"
    using Inv_objects(1) [OF assms] by blast
  have c: "\<And>k. owned s k \<noteq> Some (Some (nextObject s))"
    using Inv_objects(3) [OF assms] by blast
  have un: "unused ?s0 (nextObject s)"
    unfolding unused_def using a b c by (simp add: holds_def)
  have "Inv ?s'" by (rule Inv_owned_add) (use i0 un in simp_all)
  moreover have "destroyedIffZero s ?s'"
    using i0 unfolding destroyedIffZero_def by (simp add: setOwned_def)
  ultimately show ?thesis using r by (simp add: outcome_def)
qed

lemma step_ok:
  assumes "Inv s" "\<not> isRelease c"
  shows "outcome s (step c s)"
proof (cases c)
  case (SmartRelease h p)
  then show ?thesis using assms(2) by simp
qed (simp_all add: assms(1) SmartPtr_new_ok SmartPtr_copy_ok SmartPtr_assign_ok SmartPtr_move_ok
       SmartPtr_moveAssign_ok SmartPtr_fromOwned_ok SmartPtr_assignOwned_ok SmartPtr_clear_ok
       SmartPtr_allocate_ok SmartPtr_destroy_ok WeakPtr_new_ok WeakPtr_copy_ok
       WeakPtr_fromSmart_ok WeakPtr_assign_ok WeakPtr_assignSmart_ok WeakPtr_assignNull_ok
       WeakPtr_destroy_ok WeakPtr_toSmart_ok OwnedPtr_newOwned_ok OwnedPtr_new_ok)

lemma Inv_emptyStore: "Inv emptyStore"
proof -
  have s: "strongOf emptyStore = (\<lambda>a. 0)" "weakOf emptyStore = (\<lambda>a. 0)"
    by (simp_all add: strongOf_def weakOf_def emptyStore_def fun_eq_iff)
  have "heapOk emptyStore" by (simp add: heapOk_def emptyStore_def)
  moreover have "countsOk emptyStore"
    unfolding countsOk_def s by (simp add: emptyStore_def refs_def)
  moreover have "objectsOk emptyStore"
    by (simp add: objectsOk_def holds_def emptyStore_def)
  ultimately show ?thesis by (simp add: Inv_def)
qed

lemma exec_append: "exec (xs @ ys) s = thenDo (exec xs s) (exec ys)"
  by (induction xs arbitrary: s) (simp_all add: thenDo_def split: sum.splits)

lemma exec_Inv:
  assumes "releaseFree ops" "Inv s" "exec ops s = Inr s'"
  shows "Inv s'"
  using assms
proof (induction ops arbitrary: s)
  case Nil
  then show ?case by simp
next
  case (Cons c cs)
  have nr: "\<not> isRelease c" and rf: "releaseFree cs" using Cons.prems(1)
    by (simp_all add: releaseFree_def)
  from Cons.prems(3) obtain s1 where s1: "step c s = Inr s1" "exec cs s1 = Inr s'"
    by (auto simp: thenDo_def split: sum.splits)
  have "Inv s1" using step_ok [OF Cons.prems(2) nr] s1(1) by (simp add: outcome_def)
  then show ?case by (rule Cons.IH [OF rf _ s1(2)])
qed

lemma exec_faults:
  assumes "releaseFree ops" "Inv s"
  shows "exec ops s \<noteq> Inl UseAfterFree"
  using assms
proof (induction ops arbitrary: s)
  case Nil
  then show ?case by simp
next
  case (Cons c cs)
  have nr: "\<not> isRelease c" and rf: "releaseFree cs" using Cons.prems(1)
    by (simp_all add: releaseFree_def)
  have o: "outcome s (step c s)" by (rule step_ok [OF Cons.prems(2) nr])
  show ?case
  proof (cases "step c s")
    case (Inl e)
    then show ?thesis using o by (auto simp: outcome_def thenDo_def)
  next
    case (Inr s1)
    then have "Inv s1" using o by (simp add: outcome_def)
    from Cons.IH [OF rf this] show ?thesis using Inr by (simp add: thenDo_def)
  qed
qed

subsection \<open>Release to an exclusive handle (C3)\<close>

lemma observe_Inr: "observe f r = Inr v \<Longrightarrow> \<exists>s. r = Inr s \<and> f s = v"
  by (cases r) (simp_all add: observe_def)

text \<open>
  \<^verbatim>\<open>SmartPtr::release\<close> on a non-empty handle whose block is allocated succeeds exactly when
  the strong counter is one. When it fails nothing changes. When it succeeds the exclusive
  handle has the object, what it had before is deleted, the strong counter is zero, and the
  shared handle keeps its pointer to the block: only \<^verbatim>\<open>ptr\<close> is set to \<^verbatim>\<open>NULL\<close>.
\<close>

lemma SmartPtr_release_unique:
  assumes "smart s h = Some cur" and "refcount cur = Some a" and "blocks s a = Some rc"
    and "owned s p = Some old"
  shows "\<exists>b s'. SmartPtr_release h p s = Inr (b, s') \<and> b = (strong rc = 1) \<and>
           (if b
            then owned s' p = Some (ptr cur) \<and> smart s' h = Some (cur\<lparr>ptr := None\<rparr>) \<and>
                 strongOf s' a = 0 \<and>
                 deleted s' = deleteEnsuringCompleteType old (deleted s)
            else s' = s)"
proof (cases "strong rc = 1")
  case False
  then show ?thesis using assms
    by (auto simp: SmartPtr_release_def Refcount_release_def thenDo_def getSmart_def getOwned_def)
next
  case True
  show ?thesis
  proof (cases "weak rc = 0")
    case w: True
    then show ?thesis using assms True
      by (auto simp: SmartPtr_release_def Refcount_release_def Refcount_dec_def thenDo_def
            getSmart_def getOwned_def setSmart_def setOwned_def deleteObject_def strongOf_def
            Let_def)
  next
    case w: False
    then show ?thesis using assms True
      by (auto simp: SmartPtr_release_def Refcount_release_def Refcount_dec_def thenDo_def
            getSmart_def getOwned_def setSmart_def setOwned_def deleteObject_def strongOf_def
            Let_def)
  qed
qed

text \<open>
  C3 says that after a successful release no upgrade of a weak reference to the object can
  succeed. Three runs, each from an object under shared ownership in handle 0 released into
  the exclusive handle 1. Upgrading the weak reference 0 right after the release gives the
  empty handle. But the released shared handle 0 still points to the block, so copying it
  to the shared handle 1 takes the strong counter from zero to one, and the upgrade into
  the shared handle 2 then gives a handle to object 0 with strong counter two while the
  exclusive handle owns that object. With no weak reference the release frees the block,
  and the destructor of the released handle then decrements the freed block.
\<close>

theorem C3_stale_refcount:
  "observe (\<lambda>s. (owned s 1, smart s 0, smart s 2, strongOf s 0, deleted s))
     (exec [OwnedNewObject 0, SmartFromOwned 0 0, WeakFromSmart 0 0, OwnedNew 1,
            SmartRelease 0 1, SmartCopy 1 0, Upgrade 0 2] emptyStore)
   = Inr (Some (Some 0), Some \<lparr>ptr = None, refcount = Some 0\<rparr>,
          Some \<lparr>ptr = Some 0, refcount = Some 0\<rparr>, 2, []) \<and>
   observe (\<lambda>s. (owned s 1, smart s 0, smart s 2, strongOf s 0, deleted s))
     (exec [OwnedNewObject 0, SmartFromOwned 0 0, WeakFromSmart 0 0, OwnedNew 1,
            SmartRelease 0 1, Upgrade 0 2] emptyStore)
   = Inr (Some (Some 0), Some \<lparr>ptr = None, refcount = Some 0\<rparr>,
          Some \<lparr>ptr = None, refcount = None\<rparr>, 0, []) \<and>
   observe deleted
     (exec [OwnedNewObject 0, SmartFromOwned 0 0, OwnedNew 1, SmartRelease 0 1, SmartDestroy 0]
        emptyStore)
   = Inl UseAfterFree"
  by code_simp

subsection \<open>Destroyed exactly once (C4)\<close>




subsection \<open>Upgrading a weak reference (C6)\<close>

text \<open>
  In a state a program without release-to-exclusive reaches, the block of a weak reference
  is allocated, and while its strong counter is positive the object of the weak reference
  is not deleted.
\<close>

lemma upgrade_live_object:
  assumes "releaseFree ops" and "exec ops emptyStore = Inr s"
    and "weakp s w = Some cur" and "refcount cur = Some a"
  shows "blocks s a \<noteq> None"
    and "0 < strongOf s a \<Longrightarrow> \<exists>p. ptr cur = Some p \<and> p \<notin> set (deleted s)"
proof -
  have inv: "Inv s" by (rule exec_Inv [OF assms(1) Inv_emptyStore assms(2)])
  have hp: "heapOk s" and cn: "countsOk s" and ob: "objectsOk s" using inv by (simp_all add: Inv_def)
  have hc: "holds s cur" by (rule holds_weak [OF assms(3)])
  show "blocks s a \<noteq> None" by (rule unallocated_unheld [OF hp cn hc assms(4)])
  assume "0 < strongOf s a"
  from live_block_has_holder [OF cn this]
  obtain k c where kc: "smart s k = Some c" "refcount c = Some a" by blast
  note O = ob [unfolded objectsOk_def]
  have "(ptr c = ptr cur) = (refcount c = refcount cur)"
    using O holds_smart [OF kc(1)] hc by blast
  then have e: "ptr c = ptr cur" using kc(2) assms(4) by simp
  have "(ptr c = None) = (refcount c = None)" using O holds_smart [OF kc(1)] by blast
  then obtain p where p: "ptr c = Some p" using kc(2) by (cases "ptr c") auto
  have nd: "p \<notin> set (deleted s)" using O kc(1) p by blast
  have "ptr cur = Some p" using e p by simp
  then show "\<exists>p. ptr cur = Some p \<and> p \<notin> set (deleted s)" using nd by blast
qed

text \<open>
  Upgrading the weak reference \<open>w\<close>, whose block is allocated if it has one, into a
  new shared handle \<open>h\<close> returns. If the weak reference has a block with a positive
  strong counter, \<open>h\<close> gets the object and the block of the weak reference and that
  strong counter goes up by one; if the strong counter is zero or the weak reference is
  empty, \<open>h\<close> is the empty handle and no strong counter changes. Nothing else changes.
\<close>

lemma WeakPtr_toSmart_effect:
  assumes "weakp s w = Some cur" and "smart s h = None"
    and "\<forall>a. refcount cur = Some a \<longrightarrow> blocks s a \<noteq> None"
  shows "\<exists>s'. WeakPtr_toSmart w h s = Inr s' \<and>
           (if \<exists>a. refcount cur = Some a \<and> 0 < strongOf s a
            then smart s' h = Some cur \<and> strongOf s' = bump (refcount cur) 1 (strongOf s)
            else smart s' h = Some nullHandle \<and> strongOf s' = strongOf s) \<and>
           weakOf s' = weakOf s \<and> weakp s' = weakp s \<and> deleted s' = deleted s \<and>
           owned s' = owned s \<and> (\<forall>k. k \<noteq> h \<longrightarrow> smart s' k = smart s k)"
proof (cases "refcount cur")
  case None
  then show ?thesis using assms(1,2)
    by (simp add: WeakPtr_toSmart_def thenDo_def getWeak_def Refcount_isLive_def setSmart_def
          Let_def)
next
  case (Some a)
  then obtain rc where rc: "blocks s a = Some rc" using assms(3) by auto
  show ?thesis
  proof (cases "0 < strong rc")
    case False
    then show ?thesis using assms(1,2) Some rc
      by (simp add: WeakPtr_toSmart_def thenDo_def getWeak_def Refcount_isLive_def setSmart_def
            Let_def strongOf_def)
  next
    case True
    let ?s' = "(setSmart h \<lparr>ptr = ptr cur, refcount = Some a\<rparr> s)
                 \<lparr>blocks := (blocks s)(a \<mapsto> rc\<lparr>strong := strong rc + 1\<rparr>)\<rparr>"
    have r: "WeakPtr_toSmart w h s = Inr ?s'"
      using assms(1,2) Some rc True
      by (simp add: WeakPtr_toSmart_def thenDo_def getWeak_def Refcount_isLive_def setSmart_def
          SmartPtr_reset2_def getSmart_def Refcount_inc_def Refcount_dec_def nullHandle_def Let_def)
    have c: "\<lparr>ptr = ptr cur, refcount = Some a\<rparr> = cur" using Some by simp
    have "strongOf ?s' = bump (refcount cur) 1 (strongOf s)"
      using Some rc by (auto simp: strongOf_def bump_def setSmart_def fun_eq_iff)
    moreover have "weakOf ?s' = weakOf s"
      using rc by (auto simp: weakOf_def setSmart_def fun_eq_iff)
    moreover have "\<exists>a. refcount cur = Some a \<and> 0 < strongOf s a"
      using Some rc True by (simp add: strongOf_def)
    ultimately show ?thesis unfolding r using c by (simp add: setSmart_def)
  qed
qed

lemma WeakPtr_toSmart_effect_example:
  "\<exists>s s1 s2 s3. exec [OwnedNewObject 0, SmartFromOwned 0 0, WeakFromSmart 0 0] emptyStore = Inr s \<and>
     weakp s 0 = Some \<lparr>ptr = Some 0, refcount = Some 0\<rparr> \<and> strongOf s 0 = 1 \<and>
     WeakPtr_toSmart 0 1 s = Inr s1 \<and>
     smart s1 1 = Some \<lparr>ptr = Some 0, refcount = Some 0\<rparr> \<and> strongOf s1 0 = 2 \<and>
     exec [SmartDestroy 0] s = Inr s2 \<and> strongOf s2 0 = 0 \<and> deleted s2 = [0] \<and>
     WeakPtr_toSmart 0 1 s2 = Inr s3 \<and> smart s3 1 = Some nullHandle \<and> strongOf s3 0 = 0"
proof -
  let ?ops = "[OwnedNewObject 0, SmartFromOwned 0 0, WeakFromSmart 0 0]"
  have "observe (\<lambda>s. (weakp s 0, smart s 1, blocks s 0,
          observe (\<lambda>s2. (weakp s2 0, smart s2 1, blocks s2 0, deleted s2))
            (exec [SmartDestroy 0] s)))
        (exec ?ops emptyStore)
      = Inr (Some \<lparr>ptr = Some 0, refcount = Some 0\<rparr>, None, Some \<lparr>strong = 1, weak = 1\<rparr>,
             Inr (Some \<lparr>ptr = Some 0, refcount = Some 0\<rparr>, None,
                  Some \<lparr>strong = 0, weak = 1\<rparr>, [0]))"
    by code_simp
  from observe_Inr [OF this] obtain s where s: "exec ?ops emptyStore = Inr s"
    "weakp s 0 = Some \<lparr>ptr = Some 0, refcount = Some 0\<rparr>" "smart s 1 = None"
    "blocks s 0 = Some \<lparr>strong = 1, weak = 1\<rparr>"
    "observe (\<lambda>s2. (weakp s2 0, smart s2 1, blocks s2 0, deleted s2)) (exec [SmartDestroy 0] s)
       = Inr (Some \<lparr>ptr = Some 0, refcount = Some 0\<rparr>, None, Some \<lparr>strong = 0, weak = 1\<rparr>, [0])"
    by auto
  from observe_Inr [OF s(5)] obtain s2 where s2: "exec [SmartDestroy 0] s = Inr s2"
    "weakp s2 0 = Some \<lparr>ptr = Some 0, refcount = Some 0\<rparr>" "smart s2 1 = None"
    "blocks s2 0 = Some \<lparr>strong = 0, weak = 1\<rparr>" "deleted s2 = [0]"
    by auto
  have st: "strongOf s 0 = 1" "strongOf s2 0 = 0" using s(4) s2(4) by (simp_all add: strongOf_def)
  from WeakPtr_toSmart_effect [OF s(2,3)] s(4) st(1)
  obtain s1 where s1: "WeakPtr_toSmart 0 1 s = Inr s1"
    "smart s1 1 = Some \<lparr>ptr = Some 0, refcount = Some 0\<rparr>" "strongOf s1 0 = 2"
    by (auto simp: bump_def)
  from WeakPtr_toSmart_effect [OF s2(2,3)] s2(4) st(2)
  obtain s3 where s3: "WeakPtr_toSmart 0 1 s2 = Inr s3"
    "smart s3 1 = Some nullHandle" "strongOf s3 0 = 0"
    by auto
  show ?thesis using s(1,2) st s1 s2(1,5) s3 by blast
qed

text \<open>
  In a state a program without release-to-exclusive reaches, the upgrade does what C6
  says: with a positive strong counter the new handle has the object of the weak
  reference, which is not deleted, and the counter goes up by one; otherwise the new handle
  is empty.
\<close>

lemma upgrade_release_free:
  assumes "releaseFree ops" and "exec ops emptyStore = Inr s"
    and "weakp s w = Some cur" and "smart s h = None"
  shows "\<exists>s'. WeakPtr_toSmart w h s = Inr s' \<and>
           (if \<exists>a. refcount cur = Some a \<and> 0 < strongOf s a
            then smart s' h = Some cur \<and> (\<exists>p. ptr cur = Some p \<and> p \<notin> set (deleted s')) \<and>
                 strongOf s' = bump (refcount cur) 1 (strongOf s)
            else smart s' h = Some nullHandle \<and> strongOf s' = strongOf s)"
proof -
  have al: "\<forall>a. refcount cur = Some a \<longrightarrow> blocks s a \<noteq> None"
    using upgrade_live_object(1) [OF assms(1,2,3)] by blast
  from WeakPtr_toSmart_effect [OF assms(3,4) al]
  obtain s' where s': "WeakPtr_toSmart w h s = Inr s'"
    "if \<exists>a. refcount cur = Some a \<and> 0 < strongOf s a
     then smart s' h = Some cur \<and> strongOf s' = bump (refcount cur) 1 (strongOf s)
     else smart s' h = Some nullHandle \<and> strongOf s' = strongOf s"
    "deleted s' = deleted s" by blast
  show ?thesis
  proof (cases "\<exists>a. refcount cur = Some a \<and> 0 < strongOf s a")
    case False
    then show ?thesis using s'(1,2) by auto
  next
    case True
    then obtain a where a: "refcount cur = Some a" "0 < strongOf s a" by blast
    from upgrade_live_object(2) [OF assms(1,2,3) a]
    have "\<exists>p. ptr cur = Some p \<and> p \<notin> set (deleted s')" unfolding s'(3) .
    then show ?thesis using s'(1,2) True by auto
  qed
qed

text \<open>
  C6 says that with a positive strong counter the upgrade yields a handle to the live
  object. It does not after a release-to-exclusive: the released shared handle 0 still
  points to block 0, so copying it to the shared handle 1 takes the strong counter of
  block 0 from zero to one. Releasing a second object into the same exclusive handle 1
  then deletes object 0. At that moment the weak reference 0 has object 0 and block 0, the
  strong counter of block 0 is one and object 0 is deleted; the upgrade into the shared
  handle 2 returns a handle to the deleted object 0 and takes the counter to two.
\<close>

theorem C6_upgrade_to_deleted_object:
  "observe (\<lambda>s. (weakp s 0, smart s 2, strongOf s 0, deleted s, owned s 1,
              observe (\<lambda>s'. (smart s' 2, strongOf s' 0, deleted s')) (WeakPtr_toSmart 0 2 s)))
     (exec [OwnedNewObject 0, SmartFromOwned 0 0, WeakFromSmart 0 0, OwnedNew 1,
            SmartRelease 0 1, SmartCopy 1 0, OwnedNewObject 2, SmartFromOwned 3 2,
            SmartRelease 3 1] emptyStore)
   = Inr (Some \<lparr>ptr = Some 0, refcount = Some 0\<rparr>, None, 1, [0], Some (Some 1),
          Inr (Some \<lparr>ptr = Some 0, refcount = Some 0\<rparr>, 2, [0]))"
  by code_simp

end
